theory Spec2Isabelle
  imports Main "HOL-Library.Word" "HOL-Library.Signed_Division"
begin

unbundle bit_operations_syntax

section \<open>Data model\<close>

text \<open>
  Go's \<open>byte\<close>, \<open>uint16\<close>, \<open>uint64\<close> are words of the corresponding width; \<open>int64\<close>
  and \<open>int32\<close> are words read through \<open>sint\<close> where the sign matters.
  A \<open>[]byte\<close> is a list of bytes; a \<open>UULID\<close> (\<open>[16]byte\<close>) is a list of bytes
  whose length is 16.
\<close>

type_synonym byte = "8 word"
type_synonym uint16 = "16 word"
type_synonym uint64 = "64 word"
type_synonym UULID = "byte list"

text \<open>
  The package's error values and the two errors of Go's \<open>encoding/hex\<close> decoder.
\<close>

datatype error =
    ErrBigTime
  | ErrDataSize
  | ErrBufferSize
  | ErrInvalidType
  | ErrMonotonicOverflow
  | ErrSmallTime
  | InvalidByteError byte
  | ErrLength

definition MaxTimestamp :: uint64 where
  "MaxTimestamp = 281474976710655"

definition HexEncodedSize :: nat where
  "HexEncodedSize = 36"

definition BinarySize :: nat where
  "BinarySize = 16"

text \<open>A byte list is an identifier when it has the 16 bytes of the array type.\<close>

definition wf_UULID :: "UULID \<Rightarrow> bool" where
  "wf_UULID u = (length u = BinarySize)"

text \<open>The zero value of \<open>UULID\<close>, as declared by \<open>var id UULID\<close>.\<close>

definition zero_UULID :: UULID where
  "zero_UULID = replicate BinarySize 0"

subsection \<open>Slices\<close>

text \<open>
  \<open>subslice xs a b\<close> is Go's \<open>xs[a:b]\<close>; \<open>splice xs a seg\<close> is \<open>xs\<close> after the
  sub-slice starting at \<open>a\<close> has been overwritten with \<open>seg\<close>. \<open>copy_go dst src\<close>
  is the destination after Go's \<open>copy(dst, src)\<close>, which copies
  \<open>min (len dst) (len src)\<close> elements.
\<close>

definition subslice :: "'a list \<Rightarrow> nat \<Rightarrow> nat \<Rightarrow> 'a list" where
  "subslice xs a b = take (b - a) (drop a xs)"

definition splice :: "'a list \<Rightarrow> nat \<Rightarrow> 'a list \<Rightarrow> 'a list" where
  "splice xs a seg = take a xs @ seg @ drop (a + length seg) xs"

definition copy_go :: "'a list \<Rightarrow> 'a list \<Rightarrow> 'a list" where
  "copy_go dst src = take (length dst) src @ drop (length src) dst"

section \<open>Identifier: timestamp accessors\<close>

text \<open>
  The method \<open>id.Timestamp()\<close> is \<open>Timestamp_of\<close> here, since the package function
  \<open>Timestamp(t)\<close> on times bears the same name. The methods with a pointer receiver
  (\<open>SetTimestamp\<close>, \<open>SetEntropy\<close>, the decoders) return their error together with
  the identifier after the call.
\<close>

definition Timestamp_of :: "UULID \<Rightarrow> uint64" where
  "Timestamp_of u =
     (ucast (u ! 5) OR
      push_bit 8 (ucast (u ! 4)) OR
      push_bit 16 (ucast (u ! 3)) OR
      push_bit 24 (ucast (u ! 2)) OR
      push_bit 32 (ucast (u ! 1)) OR
      push_bit 40 (ucast (u ! 0)))"

definition SetTimestamp :: "UULID \<Rightarrow> uint64 \<Rightarrow> error option \<times> UULID" where
  "SetTimestamp u m =
     (if m > MaxTimestamp then (Some ErrBigTime, u)
      else (None,
        u[0 := ucast (drop_bit 40 m),
           1 := ucast (drop_bit 32 m),
           2 := ucast (drop_bit 24 m),
           3 := ucast (drop_bit 16 m),
           4 := ucast (drop_bit 8 m),
           5 := ucast m]))"

definition SetEntropy :: "UULID \<Rightarrow> byte list \<Rightarrow> error option \<times> UULID" where
  "SetEntropy u e =
     (if length e \<noteq> 10 then (Some ErrDataSize, u)
      else (None, splice u 6 (copy_go (drop 6 u) e)))"

definition Entropy :: "UULID \<Rightarrow> byte list" where
  "Entropy u = copy_go (replicate 10 0) (drop 6 u)"

section \<open>Time codec\<close>

text \<open>
  A \<open>time.Time\<close> is represented by what \<open>t.Unix()\<close> (an \<open>int64\<close>) and
  \<open>t.Nanosecond()\<close> (within \<open>[0, 999999999]\<close>, stored as \<open>int32\<close>) read from it.
  \<open>Unix\<close> is \<open>time.Unix\<close> of the standard library, with its normalisation of the
  nanosecond argument.
\<close>

record time =
  t_sec :: "64 word"
  t_nsec :: "32 word"

definition word_sdiv :: "'a::len word \<Rightarrow> 'a word \<Rightarrow> 'a word" where
  "word_sdiv a b = word_of_int (sint a sdiv sint b)"

definition Unix :: "64 word \<Rightarrow> 64 word \<Rightarrow> time" where
  "Unix sec nsec =
     (if word_sless nsec 0 \<or> word_sle 1000000000 nsec then
        (let n = word_sdiv nsec 1000000000;
             sec1 = sec + n;
             nsec1 = nsec - n * 1000000000
         in if word_sless nsec1 0
            then \<lparr>t_sec = sec1 - 1, t_nsec = ucast (nsec1 + 1000000000)\<rparr>
            else \<lparr>t_sec = sec1, t_nsec = ucast nsec1\<rparr>)
      else \<lparr>t_sec = sec, t_nsec = ucast nsec\<rparr>)"

definition Timestamp :: "time \<Rightarrow> uint64" where
  "Timestamp t = t_sec t * 1000 + word_sdiv (scast (t_nsec t)) 1000000"

definition Time :: "uint64 \<Rightarrow> time" where
  "Time m = Unix (m div 1000) ((m mod 1000) * 1000000)"

definition MaxTime :: time where
  "MaxTime = Time MaxTimestamp"

section \<open>Generator\<close>

text \<open>
  The mutex of the Go struct serialises whole calls of \<open>New\<close>; a call is modelled as one
  atomic state transformer, so the lock has no field here.
\<close>

record Generator =
  seed :: uint64
  ms :: uint64
  hi :: uint16
  lo :: uint64

definition NewGeneratorWithSeed :: "uint64 \<Rightarrow> Generator" where
  "NewGeneratorWithSeed s = \<lparr>seed = s, ms = 0, hi = 0, lo = 0\<rparr>"

text \<open>
  \<open>bits.Mul64\<close> of the standard library (\<open>math/bits\<close>), which returns the 128-bit
  product of two 64-bit values as its high and low halves; the body is the library's
  portable implementation on 32-bit halves.
\<close>

definition Mul64 :: "uint64 \<Rightarrow> uint64 \<Rightarrow> uint64 \<times> uint64" where
  "Mul64 x y =
     (let mask32 = 0xFFFFFFFF;
          x0 = x AND mask32;
          x1 = drop_bit 32 x;
          y0 = y AND mask32;
          y1 = drop_bit 32 y;
          w0 = x0 * y0;
          t = x1 * y0 + drop_bit 32 w0;
          w1 = t AND mask32;
          w2 = drop_bit 32 t;
          w1' = w1 + x0 * y1
      in (x1 * y1 + w2 + drop_bit 32 w1', x * y))"

definition uint64r :: "Generator \<Rightarrow> uint64 \<times> Generator" where
  "uint64r r =
     (let r1 = r\<lparr>seed := seed r + 0xa0761d6478bd642f\<rparr>;
          (h, l) = Mul64 (seed r1 XOR 0xe7037ed1a0b428db) (seed r1)
      in (h XOR l, r1))"

definition advance :: "Generator \<Rightarrow> uint64 \<Rightarrow> Generator" where
  "advance r m =
     (let r1 = r\<lparr>ms := m\<rparr>;
          (v1, r2) = uint64r r1;
          r3 = r2\<lparr>hi := ucast v1\<rparr>;
          (v2, r4) = uint64r r3
      in r4\<lparr>lo := v2\<rparr>)"

text \<open>\<open>binary.BigEndian.PutUint16\<close> and \<open>PutUint64\<close>, on a slice long enough.\<close>

definition PutUint16 :: "byte list \<Rightarrow> uint16 \<Rightarrow> byte list" where
  "PutUint16 b v = b[0 := ucast (drop_bit 8 v), 1 := ucast v]"

definition PutUint64 :: "byte list \<Rightarrow> uint64 \<Rightarrow> byte list" where
  "PutUint64 b v =
     b[0 := ucast (drop_bit 56 v),
       1 := ucast (drop_bit 48 v),
       2 := ucast (drop_bit 40 v),
       3 := ucast (drop_bit 32 v),
       4 := ucast (drop_bit 24 v),
       5 := ucast (drop_bit 16 v),
       6 := ucast (drop_bit 8 v),
       7 := ucast v]"

text \<open>
  \<open>read\<close> returns the error, the generator after the call and the slice \<open>p\<close> after the
  call. On the overflow path the two increments have been stored in the generator
  before the error is returned, and \<open>p\<close> is not written.
\<close>

definition read :: "Generator \<Rightarrow> byte list \<Rightarrow> uint64 \<Rightarrow> error option \<times> Generator \<times> byte list" where
  "read r p m =
     (if ms r = m then
        (let l = lo r; h = hi r;
             r1 = r\<lparr>lo := lo r + 1\<rparr>
         in if lo r1 < l then
              (let r2 = r1\<lparr>hi := hi r1 + 1\<rparr>
               in if hi r2 < h then (Some ErrMonotonicOverflow, r2, p)
                  else (None, r2, PutUint16 (take 2 p) (hi r2) @ PutUint64 (drop 2 p) (lo r2)))
            else (None, r1, PutUint16 (take 2 p) (hi r1) @ PutUint64 (drop 2 p) (lo r1)))
      else
        (let r1 = advance r m
         in (None, r1, PutUint16 (take 2 p) (hi r1) @ PutUint64 (drop 2 p) (lo r1))))"

text \<open>
  \<open>New\<close> takes the generator and the instant that \<open>time.Now()\<close> returns; it yields
  the identifier, the error and the generator after the call.
\<close>

definition New :: "Generator \<Rightarrow> time \<Rightarrow> (UULID \<times> error option) \<times> Generator" where
  "New r now =
     (let m = Timestamp now;
          (e1, id1) = SetTimestamp zero_UULID m
      in if e1 \<noteq> None then ((id1, e1), r)
         else
           (let (e2, r2, p) = read r (drop 6 id1) m;
                id2 = take 6 id1 @ p
            in ((id2, e2), r2)))"

text \<open>The 80-bit entropy counter of a generator, and the 80-bit entropy value of an identifier.\<close>

definition counter :: "Generator \<Rightarrow> nat" where
  "counter r = unat (hi r) * 2 ^ 64 + unat (lo r)"

definition be_nat :: "byte list \<Rightarrow> nat" where
  "be_nat bs = foldl (\<lambda>a b. a * 256 + unat b) 0 bs"

definition entropy_value :: "UULID \<Rightarrow> nat" where
  "entropy_value u = be_nat (drop 6 u)"

text \<open>
  The six timestamp bytes that \<open>SetTimestamp\<close> stores, and the ten entropy bytes that
  \<open>read\<close> stores into a zeroed slice for a generator state.
\<close>

definition ts_bytes :: "uint64 \<Rightarrow> byte list" where
  "ts_bytes m = [ucast (drop_bit 40 m), ucast (drop_bit 32 m), ucast (drop_bit 24 m),
                 ucast (drop_bit 16 m), ucast (drop_bit 8 m), ucast m]"

definition ent_bytes :: "Generator \<Rightarrow> byte list" where
  "ent_bytes r = PutUint16 (replicate 2 0) (hi r) @ PutUint64 (replicate 8 0) (lo r)"

text \<open>
  The entropy step as the specification words it, on natural numbers: advance the seed
  by \<open>0xA0761D6478BD642F\<close> modulo \<open>2^64\<close>, take the 128-bit product of
  \<open>seed XOR 0xE7037ED1A0B428DB\<close> and \<open>seed\<close>, and return the XOR of the product's high
  and low 64-bit halves together with the new seed.
\<close>

definition entropy_step_spec :: "nat \<Rightarrow> nat \<times> nat" where
  "entropy_step_spec s =
     (let s' = (s + 0xA0761D6478BD642F) mod 2 ^ 64;
          p = (s' XOR 0xE7037ED1A0B428DB) * s'
      in ((p div 2 ^ 64) XOR (p mod 2 ^ 64), s'))"

text \<open>
  \<open>encoding/hex\<close> of the standard library: \<open>hextable\<close>, \<open>fromHexChar\<close>, and the loops
  of \<open>hex.Encode\<close> and \<open>hex.Decode\<close>. \<open>Decode\<close> yields the destination after
  the call, the number of bytes written and the error; it writes each byte as soon as its
  two digits are decoded, so a failing call has already stored the bytes before the bad
  pair. In every call of this package the destination has room for the decoded bytes.
\<close>

definition hextable :: "byte list" where
  "hextable = map of_char ''0123456789abcdef''"

definition fromHexChar :: "byte \<Rightarrow> byte option" where
  "fromHexChar c =
     (if of_char CHR ''0'' \<le> c \<and> c \<le> of_char CHR ''9'' then Some (c - of_char CHR ''0'')
      else if of_char CHR ''a'' \<le> c \<and> c \<le> of_char CHR ''f'' then Some (c - of_char CHR ''a'' + 10)
      else if of_char CHR ''A'' \<le> c \<and> c \<le> of_char CHR ''F'' then Some (c - of_char CHR ''A'' + 10)
      else None)"

fun Encode_loop :: "byte list \<Rightarrow> nat \<Rightarrow> byte list \<Rightarrow> byte list" where
  "Encode_loop dst j [] = dst"
| "Encode_loop dst j (v # vs) =
     Encode_loop (dst[j := hextable ! unat (drop_bit 4 v),
                      j + 1 := hextable ! unat (v AND 0x0f)]) (j + 2) vs"

definition Encode :: "byte list \<Rightarrow> byte list \<Rightarrow> byte list" where
  "Encode dst src = Encode_loop dst 0 src"

fun Decode_loop :: "byte list \<Rightarrow> nat \<Rightarrow> byte list \<Rightarrow> byte list \<times> nat \<times> error option" where
  "Decode_loop dst i (p # q # rest) =
     (case fromHexChar p of
        None \<Rightarrow> (dst, i, Some (InvalidByteError p))
      | Some a \<Rightarrow>
          (case fromHexChar q of
             None \<Rightarrow> (dst, i, Some (InvalidByteError q))
           | Some b \<Rightarrow> Decode_loop (dst[i := push_bit 4 a OR b]) (i + 1) rest))"
| "Decode_loop dst i [p] =
     (case fromHexChar p of
        None \<Rightarrow> (dst, i, Some (InvalidByteError p))
      | Some a \<Rightarrow> (dst, i, Some ErrLength))"
| "Decode_loop dst i [] = (dst, i, None)"

definition Decode :: "byte list \<Rightarrow> byte list \<Rightarrow> byte list \<times> nat \<times> error option" where
  "Decode dst src = Decode_loop dst 0 src"

text \<open>
  \<open>decode_range u a b data c d\<close> is the call \<open>hex.Decode(id[a:b], data[c:d])\<close>: its error
  and the identifier after it. \<open>parse\<close> returns its error and the identifier
  \<open>*id\<close> after the call.
\<close>

definition decode_range ::
  "UULID \<Rightarrow> nat \<Rightarrow> nat \<Rightarrow> byte list \<Rightarrow> nat \<Rightarrow> nat \<Rightarrow> error option \<times> UULID" where
  "decode_range u a b data c d =
     (case Decode (subslice u a b) (subslice data c d) of (seg, n, e) \<Rightarrow> (e, splice u a seg))"

definition parse :: "byte list \<Rightarrow> UULID \<Rightarrow> error option \<times> UULID" where
  "parse data u =
     (case
        (if length data = 16 then (None, copy_go u data)
         else if length data = 32 then
           (case Decode u data of (u1, n, e) \<Rightarrow> (e, u1))
         else if length data = 36 then
           (case decode_range u 0 4 data 0 8 of
              (Some e, u1) \<Rightarrow> (Some e, u1)
            | (None, u1) \<Rightarrow>
           (case decode_range u1 4 6 data 9 13 of
              (Some e, u2) \<Rightarrow> (Some e, u2)
            | (None, u2) \<Rightarrow>
           (case decode_range u2 6 8 data 14 18 of
              (Some e, u3) \<Rightarrow> (Some e, u3)
            | (None, u3) \<Rightarrow>
           (case decode_range u3 8 10 data 19 23 of
              (Some e, u4) \<Rightarrow> (Some e, u4)
            | (None, u4) \<Rightarrow> decode_range u4 10 16 data 24 36))))
         else (Some ErrDataSize, u))
      of
        (Some e, u') \<Rightarrow> (Some e, u')
      | (None, u') \<Rightarrow>
          if Timestamp_of u' > MaxTimestamp then (Some ErrBigTime, u') else (None, u'))"

definition Parse :: "byte list \<Rightarrow> UULID \<times> error option" where
  "Parse data = (case parse data zero_UULID of (e, u) \<Rightarrow> (u, e))"

definition MarshalBinaryTo :: "UULID \<Rightarrow> byte list \<Rightarrow> error option \<times> byte list" where
  "MarshalBinaryTo u dst =
     (if length dst \<noteq> BinarySize then (Some ErrBufferSize, dst)
      else (None, copy_go dst u))"

definition MarshalBinary :: "UULID \<Rightarrow> byte list \<times> error option" where
  "MarshalBinary u =
     (case MarshalBinaryTo u (replicate BinarySize 0) of (e, data) \<Rightarrow> (data, e))"


definition MarshalTextTo :: "UULID \<Rightarrow> byte list \<Rightarrow> error option \<times> byte list" where
  "MarshalTextTo u dst =
     (if length dst \<noteq> HexEncodedSize then (Some ErrBufferSize, dst)
      else
        (let d1 = splice dst 0 (Encode (subslice dst 0 8) (subslice u 0 4));
             d2 = d1[8 := of_char CHR ''-''];
             d3 = splice d2 9 (Encode (subslice d2 9 13) (subslice u 4 6));
             d4 = d3[13 := of_char CHR ''-''];
             d5 = splice d4 14 (Encode (subslice d4 14 18) (subslice u 6 8));
             d6 = d5[18 := of_char CHR ''-''];
             d7 = splice d6 19 (Encode (subslice d6 19 23) (subslice u 8 10));
             d8 = d7[23 := of_char CHR ''-''];
             d9 = splice d8 24 (Encode (subslice d8 24 36) (subslice u 10 16))
         in (None, d9)))"

definition MarshalText :: "UULID \<Rightarrow> byte list \<times> error option" where
  "MarshalText u =
     (case MarshalTextTo u (replicate HexEncodedSize 0) of (e, data) \<Rightarrow> (data, e))"

definition String :: "UULID \<Rightarrow> byte list" where
  "String u = snd (MarshalTextTo u (replicate HexEncodedSize 0))"


definition MarshalJSON :: "UULID \<Rightarrow> byte list \<times> error option" where
  "MarshalJSON u = MarshalText u"


text \<open>
  The dynamic value (\<open>interface{}\<close>) handed to \<open>Scan\<close>: \<open>nil\<close>, a string, a byte
  slice, the other types of \<open>database/sql/driver.Value\<close>, or a value of any other
  type, named by its type.
\<close>

datatype src_value =
    SrcNil
  | SrcString "byte list"
  | SrcBytes "byte list"
  | SrcInt64 "64 word"
  | SrcFloat64 "64 word"
  | SrcBool bool
  | SrcTime time
  | SrcOther string

fun Scan :: "UULID \<Rightarrow> src_value \<Rightarrow> error option \<times> UULID" where
  "Scan u SrcNil = (None, u)"
| "Scan u (SrcString x) = parse x u"
| "Scan u (SrcBytes x) = parse x u"
| "Scan u _ = (Some ErrInvalidType, u)"

text \<open>
  The identifier of the package's tests, \<open>0178a284-9eaf-b3e7-036d-5b1b9f3cd753\<close>, with
  its timestamp \<open>1617634303663\<close>: the model decodes and re-encodes it as the tests
  expect.
\<close>

definition encoded :: "byte list" where
  "encoded = map of_char ''0178a284-9eaf-b3e7-036d-5b1b9f3cd753''"

text \<open>Whether a source value is text (a string), and whether it is a byte slice.\<close>

fun is_text :: "src_value \<Rightarrow> bool" where
  "is_text (SrcString x) = True"
| "is_text _ = False"

fun is_bytes :: "src_value \<Rightarrow> bool" where
  "is_bytes (SrcBytes x) = True"
| "is_bytes _ = False"

text \<open>
  What the two loops compute, without destinations and indices: \<open>hexstr\<close> is the hex
  text of a byte list; \<open>unhex\<close> is the list of the bytes of the digit pairs that
  precede the first malformed pair; \<open>hex_error\<close> is the decoder's error for an input,
  the first character that is not a hex digit (\<open>is_hex\<close>) or the odd length.
\<close>

definition hexstr :: "byte list \<Rightarrow> byte list" where
  "hexstr vs = concat (map (\<lambda>v. [hextable ! unat (drop_bit 4 v), hextable ! unat (v AND 0x0f)]) vs)"

fun unhex :: "byte list \<Rightarrow> byte list" where
  "unhex (p # q # rest) =
     (case (fromHexChar p, fromHexChar q) of
        (Some a, Some b) \<Rightarrow> (push_bit 4 a OR b) # unhex rest
      | _ \<Rightarrow> [])"
| "unhex _ = []"

definition is_hex :: "byte \<Rightarrow> bool" where
  "is_hex c = (fromHexChar c \<noteq> None)"

fun hex_error :: "byte list \<Rightarrow> error option" where
  "hex_error (p # q # rest) =
     (if \<not> is_hex p then Some (InvalidByteError p)
      else if \<not> is_hex q then Some (InvalidByteError q)
      else hex_error rest)"
| "hex_error [p] = (if \<not> is_hex p then Some (InvalidByteError p) else Some ErrLength)"
| "hex_error [] = None"


section \<open>Entropy counter\<close>

lemma word_add1_less_iff: "(w + 1 < w) = (w = - 1)" for w :: "'a::len word"
  by (metis add_cancel_right_right inc_less_eq_self_iff_eq nless_le zero_neq_one)

lemma unat_hi_max: "(unat h = 65535) = (h = - 1)" for h :: uint16
proof -
  have "unat (- 1 :: uint16) = 65535"
    by (simp add: unsigned_minus_1_eq_mask mask_eq_exp_minus_1)
  then show ?thesis by (metis unsigned_word_eqI)
qed

lemma unat_lo_max: "(unat l = 18446744073709551615) = (l = - 1)" for l :: uint64
proof -
  have "unat (- 1 :: uint64) = 18446744073709551615"
    by (simp add: unsigned_minus_1_eq_mask mask_eq_exp_minus_1)
  then show ?thesis by (metis unsigned_word_eqI)
qed

lemma counter_bound: "counter r < 2 ^ 80"
proof -
  have "unat (hi r) < 2 ^ 16" using unsigned_less [of "hi r"] by simp
  moreover have "unat (lo r) < 2 ^ 64" using unsigned_less [of "lo r"] by simp
  ultimately show ?thesis unfolding counter_def by simp
qed

lemma counter_max_iff: "(counter r = 2 ^ 80 - 1) = (hi r = - 1 \<and> lo r = - 1)"
proof -
  have h: "unat (hi r) < 65536" using unsigned_less [of "hi r"] by simp
  have l: "unat (lo r) < 18446744073709551616" using unsigned_less [of "lo r"] by simp
  have "(unat (hi r) * 18446744073709551616 + unat (lo r) = 1208925819614629174706175)
         = (unat (hi r) = 65535 \<and> unat (lo r) = 18446744073709551615)"
    using h l by arith
  then show ?thesis by (simp add: counter_def unat_hi_max unat_lo_max)
qed

lemma read_same_ms_error:
  "ms r = m \<Longrightarrow>
   fst (read r p m) = (if hi r = - 1 \<and> lo r = - 1 then Some ErrMonotonicOverflow else None)"
  by (cases "lo r = - 1"; cases "hi r = - 1")
     (simp_all add: read_def Let_def word_add1_less_iff word_gt_0)

section \<open>Big-endian byte values\<close>

lemma unat_drop_bit_div: "unat (drop_bit k v) = unat v div 2 ^ k" for v :: "'a::len word"
  unfolding unat_drop_bit_eq by (simp add: drop_bit_eq_div)

lemma unat_byte_of0: "unat (ucast v :: byte) = unat v mod 256" for v :: "'a::len word"
  by (simp add: unsigned_ucast_eq take_bit_eq_mod)

lemma be_split: "(x::nat) mod (2 ^ k * 256) = ((x div 2 ^ k) mod 256) * 2 ^ k + x mod 2 ^ k"
  by (metis mod_mult2_eq mult.commute)

lemma length2E: "length b = 2 \<Longrightarrow> \<exists>b0 b1. b = [b0, b1]"
  by (cases b; simp; cases "tl b"; simp)

lemma be_nat_PutUint16: "length b = 2 \<Longrightarrow> be_nat (PutUint16 b h) = unat h"
proof -
  assume "length b = 2"
  then obtain b0 b1 where b: "b = [b0, b1]"
    using length2E by blast
  have x: "unat h < 2 ^ 16" using unsigned_less [of h] by simp
  have "unat h = unat h mod (2 ^ 8 * 256)" using x by simp
  also have "\<dots> = ((unat h div 2 ^ 8) mod 256) * 2 ^ 8 + unat h mod 2 ^ 8" by (rule be_split)
  finally show ?thesis
    by (simp add: b PutUint16_def be_nat_def unat_drop_bit_div unat_byte_of0)
qed

lemma be_nat_PutUint64: "length b = 8 \<Longrightarrow> be_nat (PutUint64 b l) = unat l"
proof -
  assume "length b = 8"
  then obtain b0 b1 b2 b3 b4 b5 b6 b7 where b: "b = [b0, b1, b2, b3, b4, b5, b6, b7]"
    by (auto simp add: length_Suc_conv eval_nat_numeral)
  define x where "x = unat l"
  have x: "x < 2 ^ 64" unfolding x_def using unsigned_less [of l] by simp
  have "x = x mod (2 ^ 56 * 256)" using x by simp
  also have "\<dots> = ((x div 2 ^ 56) mod 256) * 2 ^ 56 + x mod 2 ^ 56" by (rule be_split)
  also have "x mod 2 ^ 56 = ((x div 2 ^ 48) mod 256) * 2 ^ 48 + x mod 2 ^ 48" using be_split [of x 48] by simp
  also have "x mod 2 ^ 48 = ((x div 2 ^ 40) mod 256) * 2 ^ 40 + x mod 2 ^ 40" using be_split [of x 40] by simp
  also have "x mod 2 ^ 40 = ((x div 2 ^ 32) mod 256) * 2 ^ 32 + x mod 2 ^ 32" using be_split [of x 32] by simp
  also have "x mod 2 ^ 32 = ((x div 2 ^ 24) mod 256) * 2 ^ 24 + x mod 2 ^ 24" using be_split [of x 24] by simp
  also have "x mod 2 ^ 24 = ((x div 2 ^ 16) mod 256) * 2 ^ 16 + x mod 2 ^ 16" using be_split [of x 16] by simp
  also have "x mod 2 ^ 16 = ((x div 2 ^ 8) mod 256) * 2 ^ 8 + x mod 2 ^ 8" using be_split [of x 8] by simp
  finally have "x = (x div 2 ^ 56) mod 256 * 2 ^ 56 + ((x div 2 ^ 48) mod 256 * 2 ^ 48 + ((x div 2 ^ 40) mod 256 * 2 ^ 40 + ((x div 2 ^ 32) mod 256 * 2 ^ 32 + ((x div 2 ^ 24) mod 256 * 2 ^ 24 + ((x div 2 ^ 16) mod 256 * 2 ^ 16 + ((x div 2 ^ 8) mod 256 * 2 ^ 8 + x mod 2 ^ 8))))))" .
  then show ?thesis
    by (simp add: b PutUint64_def be_nat_def unat_drop_bit_div unat_byte_of0 flip: x_def)
qed

lemma foldl_be_acc:
  "foldl (\<lambda>a b. a * 256 + unat b) a ys
     = a * 256 ^ length ys + foldl (\<lambda>a b. a * 256 + unat b) 0 ys"
  for a :: nat and ys :: "byte list"
proof (induction ys arbitrary: a)
  case Nil
  show ?case by simp
next
  case (Cons y ys)
  have "foldl (\<lambda>a b. a * 256 + unat b) a (y # ys)
        = (a * 256 + unat y) * 256 ^ length ys + foldl (\<lambda>a b. a * 256 + unat b) 0 ys"
    using Cons.IH [of "a * 256 + unat y"] by simp
  moreover have "foldl (\<lambda>a b. a * 256 + unat b) 0 (y # ys)
        = unat y * 256 ^ length ys + foldl (\<lambda>a b. a * 256 + unat b) 0 ys"
    using Cons.IH [of "unat y"] by simp
  ultimately show ?case by (simp add: algebra_simps)
qed

lemma be_nat_append: "be_nat (xs @ ys) = be_nat xs * 256 ^ length ys + be_nat ys"
  unfolding be_nat_def foldl_append by (rule foldl_be_acc)

section \<open>Generator: one call of New\<close>

lemma SetTimestamp_zero:
  "SetTimestamp zero_UULID m =
     (if m > MaxTimestamp then (Some ErrBigTime, zero_UULID)
      else (None, ts_bytes m @ replicate 10 0))"
  by (simp add: SetTimestamp_def zero_UULID_def BinarySize_def ts_bytes_def eval_nat_numeral)

lemma New_unfold:
  "New r now =
     (if Timestamp now > MaxTimestamp then ((zero_UULID, Some ErrBigTime), r)
      else ((ts_bytes (Timestamp now) @ snd (snd (read r (replicate 10 0) (Timestamp now))),
             fst (read r (replicate 10 0) (Timestamp now))),
            fst (snd (read r (replicate 10 0) (Timestamp now)))))"
  by (simp add: New_def Let_def SetTimestamp_zero ts_bytes_def split_beta)

lemma length_PutUint16 [simp]: "length (PutUint16 b v) = length b"
  by (simp add: PutUint16_def)

lemma length_PutUint64 [simp]: "length (PutUint64 b v) = length b"
  by (simp add: PutUint64_def)

lemma be_nat_ent_bytes: "be_nat (ent_bytes r) = counter r"
  by (simp add: ent_bytes_def be_nat_append be_nat_PutUint16 be_nat_PutUint64 counter_def)

lemma length_ent_bytes [simp]: "length (ent_bytes r) = 10"
  by (simp add: ent_bytes_def)

lemma length_ts_bytes [simp]: "length (ts_bytes m) = 6"
  by (simp add: ts_bytes_def)

lemma read_other_ms:
  "ms r \<noteq> m \<Longrightarrow> read r (replicate 10 0) m = (None, advance r m, ent_bytes (advance r m))"
  by (simp add: read_def Let_def ent_bytes_def)

lemma unat_inc: "w \<noteq> - 1 \<Longrightarrow> unat (w + 1) = unat w + 1" for w :: "'a::len word"
  using unatSuc [of w] max_word_wrap [of w] by (auto simp add: add.commute)

lemma read_same_ms_ok:
  assumes "ms r = m" and "\<not> (hi r = - 1 \<and> lo r = - 1)"
  shows "\<exists>r'. read r (replicate 10 0) m = (None, r', ent_bytes r') \<and>
              counter r' = counter r + 1 \<and> ms r' = m \<and> seed r' = seed r"
proof (cases "lo r = - 1")
  case True
  then have h: "hi r \<noteq> - 1" using assms by simp
  have "unat (lo r) = 18446744073709551615" using True by (simp add: unat_lo_max)
  then show ?thesis using assms True h
    by (simp add: read_def Let_def ent_bytes_def word_add1_less_iff counter_def unat_inc word_gt_0)
next
  case False
  then show ?thesis using assms
    by (simp add: read_def Let_def ent_bytes_def word_add1_less_iff counter_def unat_inc)
qed

lemma read_same_ms_overflow:
  assumes "ms r = m" and "hi r = - 1" and "lo r = - 1"
  shows "read r p m = (Some ErrMonotonicOverflow, r\<lparr>hi := 0, lo := 0\<rparr>, p)"
  using assms by (simp add: read_def Let_def word_gt_0)

lemma ms_advance [simp]: "ms (advance r m) = m"
  by (simp add: advance_def uint64r_def Let_def split_beta)

lemma counter_below_max_iff: "(counter r < 2 ^ 80 - 1) = (\<not> (hi r = - 1 \<and> lo r = - 1))"
proof -
  have "(counter r < 2 ^ 80 - 1) = (counter r \<noteq> 2 ^ 80 - 1)"
    using counter_bound [of r] by auto
  then show ?thesis by (simp only: counter_max_iff)
qed

lemma read_same_ms_step:
  assumes "ms r = m" and "\<not> (hi r = - 1 \<and> lo r = - 1)"
  shows "read r p m
           = (None,
              r\<lparr>lo := lo r + 1, hi := (if lo r = - 1 then hi r + 1 else hi r)\<rparr>,
              PutUint16 (take 2 p) (if lo r = - 1 then hi r + 1 else hi r)
                @ PutUint64 (drop 2 p) (lo r + 1))"
proof (cases "lo r = - 1")
  case True
  then have "hi r \<noteq> - 1" using assms by simp
  then show ?thesis using assms True
    by (simp add: read_def Let_def word_add1_less_iff word_gt_0)
next
  case False
  then show ?thesis using assms
    by (simp add: read_def Let_def word_add1_less_iff)
qed

lemma counter_step:
  assumes "\<not> (hi r = - 1 \<and> lo r = - 1)"
  shows "counter (r\<lparr>lo := lo r + 1, hi := (if lo r = - 1 then hi r + 1 else hi r)\<rparr>)
           = counter r + 1"
proof (cases "lo r = - 1")
  case True
  then have h: "hi r \<noteq> - 1" using assms by simp
  have "unat (lo r) = 18446744073709551615" using True by (simp add: unat_lo_max)
  then show ?thesis using True h by (simp add: counter_def unat_inc)
next
  case False
  then show ?thesis by (simp add: counter_def unat_inc)
qed

text \<open>
  C2. Let the millisecond passed to \<open>read\<close> equal the generator's last-seen
  millisecond, and let \<open>p\<close> be the ten entropy bytes of the identifier. \<open>read\<close> returns
  \<open>ErrMonotonicOverflow\<close> if and only if the 80-bit counter (high half times \<open>2^64\<close>
  plus low half) was \<open>2^80 - 1\<close> before the call, that is when both halves hold their
  maximum; then both increments have wrapped, the generator holds zero in both halves
  and \<open>p\<close> is not written. For every smaller counter value the increment succeeds:
  \<open>read\<close> returns no error, the low half is incremented, the high half is incremented
  exactly when the low half wrapped, the counter of the generator after the call is
  the old counter plus one, seed and last-seen millisecond are unchanged, and \<open>p\<close>
  holds the new counter, high half first, as a big-endian number.
\<close>

theorem read_overflow_iff_counter_max:
  assumes "ms r = m" and "length p = 10"
  shows
    "((fst (read r p m) = Some ErrMonotonicOverflow) = (counter r = 2 ^ 80 - 1)) \<and>
     ((counter r = 2 ^ 80 - 1) = (hi r = - 1 \<and> lo r = - 1)) \<and>
     (counter r = 2 ^ 80 - 1 \<longrightarrow>
        read r p m = (Some ErrMonotonicOverflow, r\<lparr>hi := 0, lo := 0\<rparr>, p)) \<and>
     (counter r < 2 ^ 80 - 1 \<longrightarrow>
        fst (read r p m) = None \<and>
        counter (fst (snd (read r p m))) = counter r + 1 \<and>
        lo (fst (snd (read r p m))) = lo r + 1 \<and>
        hi (fst (snd (read r p m))) = (if lo r = - 1 then hi r + 1 else hi r) \<and>
        ms (fst (snd (read r p m))) = m \<and>
        seed (fst (snd (read r p m))) = seed r \<and>
        snd (snd (read r p m))
          = PutUint16 (take 2 p) (hi (fst (snd (read r p m))))
              @ PutUint64 (drop 2 p) (lo (fst (snd (read r p m)))) \<and>
        length (snd (snd (read r p m))) = 10 \<and>
        be_nat (snd (snd (read r p m))) = counter r + 1)"
proof -
  have e: "(fst (read r p m) = Some ErrMonotonicOverflow) = (counter r = 2 ^ 80 - 1)"
    using assms(1) by (simp only: read_same_ms_error counter_max_iff) simp
  have mx: "(counter r = 2 ^ 80 - 1) = (hi r = - 1 \<and> lo r = - 1)"
    by (rule counter_max_iff)
  have ov: "read r p m = (Some ErrMonotonicOverflow, r\<lparr>hi := 0, lo := 0\<rparr>, p)"
    if "counter r = 2 ^ 80 - 1"
    using that assms(1) read_same_ms_overflow [of r m p] unfolding mx by simp
  have ok: "fst (read r p m) = None \<and>
        counter (fst (snd (read r p m))) = counter r + 1 \<and>
        lo (fst (snd (read r p m))) = lo r + 1 \<and>
        hi (fst (snd (read r p m))) = (if lo r = - 1 then hi r + 1 else hi r) \<and>
        ms (fst (snd (read r p m))) = m \<and>
        seed (fst (snd (read r p m))) = seed r \<and>
        snd (snd (read r p m))
          = PutUint16 (take 2 p) (hi (fst (snd (read r p m))))
              @ PutUint64 (drop 2 p) (lo (fst (snd (read r p m)))) \<and>
        length (snd (snd (read r p m))) = 10 \<and>
        be_nat (snd (snd (read r p m))) = counter r + 1"
    if "counter r < 2 ^ 80 - 1"
  proof -
    have nm: "\<not> (hi r = - 1 \<and> lo r = - 1)"
      using that counter_below_max_iff [of r] by blast
    let ?h = "if lo r = - 1 then hi r + 1 else hi r"
    let ?r' = "r\<lparr>lo := lo r + 1, hi := ?h\<rparr>"
    note st = read_same_ms_step [OF assms(1) nm, of p]
    have c: "counter ?r' = counter r + 1" using nm by (rule counter_step)
    have l2: "length (take 2 p) = 2" and l8: "length (drop 2 p) = 8"
      using assms(2) by simp_all
    have b: "be_nat (PutUint16 (take 2 p) ?h @ PutUint64 (drop 2 p) (lo r + 1))
               = counter ?r'"
      using l2 l8
      by (simp add: be_nat_append be_nat_PutUint16 be_nat_PutUint64 counter_def)
    show ?thesis
      unfolding st using c b assms l2 l8 by simp
  qed
  from e mx ov ok show ?thesis by blast
qed

theorem read_overflow_iff_counter_max_witness:
  "ms \<lparr>seed = 1, ms = 5, hi = 0, lo = 7\<rparr> = 5 \<and>
   length [9, 9, 9, 9, 9, 9, 9, 9, 9, 9 :: byte] = 10 \<and>
   counter \<lparr>seed = 1, ms = 5, hi = 0, lo = 7\<rparr> < 2 ^ 80 - 1 \<and>
   read \<lparr>seed = 1, ms = 5, hi = 0, lo = 7\<rparr> [9, 9, 9, 9, 9, 9, 9, 9, 9, 9] 5
     = (None, \<lparr>seed = 1, ms = 5, hi = 0, lo = 8\<rparr>, [0, 0, 0, 0, 0, 0, 0, 0, 0, 8]) \<and>
   be_nat [0, 0, 0, 0, 0, 0, 0, 0, 0, 8] = counter \<lparr>seed = 1, ms = 5, hi = 0, lo = 7\<rparr> + 1 \<and>
   counter \<lparr>seed = 1, ms = 5, hi = 3, lo = 0xFFFFFFFFFFFFFFFF\<rparr> < 2 ^ 80 - 1 \<and>
   read \<lparr>seed = 1, ms = 5, hi = 3, lo = 0xFFFFFFFFFFFFFFFF\<rparr> [9, 9, 9, 9, 9, 9, 9, 9, 9, 9] 5
     = (None, \<lparr>seed = 1, ms = 5, hi = 4, lo = 0\<rparr>, [0, 4, 0, 0, 0, 0, 0, 0, 0, 0]) \<and>
   be_nat [0, 4, 0, 0, 0, 0, 0, 0, 0, 0]
     = counter \<lparr>seed = 1, ms = 5, hi = 3, lo = 0xFFFFFFFFFFFFFFFF\<rparr> + 1 \<and>
   counter \<lparr>seed = 1, ms = 5, hi = 0xFFFF, lo = 0xFFFFFFFFFFFFFFFF\<rparr> = 2 ^ 80 - 1 \<and>
   read \<lparr>seed = 1, ms = 5, hi = 0xFFFF, lo = 0xFFFFFFFFFFFFFFFF\<rparr>
        [9, 9, 9, 9, 9, 9, 9, 9, 9, 9] 5
     = (Some ErrMonotonicOverflow, \<lparr>seed = 1, ms = 5, hi = 0, lo = 0\<rparr>,
        [9, 9, 9, 9, 9, 9, 9, 9, 9, 9])"
proof -
  let ?p = "[9, 9, 9, 9, 9, 9, 9, 9, 9, 9] :: byte list"
  let ?ra = "\<lparr>seed = 1, ms = 5, hi = 0, lo = 7\<rparr>"
  let ?rb = "\<lparr>seed = 1, ms = 5, hi = 3, lo = 0xFFFFFFFFFFFFFFFF\<rparr>"
  let ?rc = "\<lparr>seed = 1, ms = 5, hi = 0xFFFF, lo = 0xFFFFFFFFFFFFFFFF\<rparr>"
  have lp: "length ?p = 10" by simp
  have ma: "ms ?ra = 5" and mb: "ms ?rb = 5" and mc: "ms ?rc = 5" by simp_all
  have ca: "counter ?ra < 2 ^ 80 - 1" and cb: "counter ?rb < 2 ^ 80 - 1"
    and cc: "counter ?rc = 2 ^ 80 - 1"
    by (simp_all add: counter_def)
  have ra: "read ?ra ?p 5
     = (None, \<lparr>seed = 1, ms = 5, hi = 0, lo = 8\<rparr>, [0, 0, 0, 0, 0, 0, 0, 0, 0, 8])"
    by code_simp
  have rb: "read ?rb ?p 5
     = (None, \<lparr>seed = 1, ms = 5, hi = 4, lo = 0\<rparr>, [0, 4, 0, 0, 0, 0, 0, 0, 0, 0])"
    by code_simp
  note ta = read_overflow_iff_counter_max [OF ma lp]
  note tb = read_overflow_iff_counter_max [OF mb lp]
  note tc = read_overflow_iff_counter_max [OF mc lp]
  from ta ca have "be_nat (snd (snd (read ?ra ?p 5))) = counter ?ra + 1" by blast
  then have ba: "be_nat [0, 0, 0, 0, 0, 0, 0, 0, 0, 8] = counter ?ra + 1"
    unfolding ra by simp
  from tb cb have "be_nat (snd (snd (read ?rb ?p 5))) = counter ?rb + 1" by blast
  then have bb: "be_nat [0, 4, 0, 0, 0, 0, 0, 0, 0, 0] = counter ?rb + 1"
    unfolding rb by simp
  from tc cc have "read ?rc ?p 5 = (Some ErrMonotonicOverflow, ?rc\<lparr>hi := 0, lo := 0\<rparr>, ?p)"
    by blast
  then have rc: "read ?rc ?p 5
     = (Some ErrMonotonicOverflow, \<lparr>seed = 1, ms = 5, hi = 0, lo = 0\<rparr>, ?p)"
    by simp
  from ma lp ca ra ba cb rb bb cc rc show ?thesis by blast
qed

lemma New_success:
  assumes "New r now = ((u, None), r')"
  shows "Timestamp now \<le> MaxTimestamp \<and> ms r' = Timestamp now \<and>
         u = ts_bytes (Timestamp now) @ ent_bytes r'"
proof -
  let ?m = "Timestamp now"
  have le: "?m \<le> MaxTimestamp"
    using assms by (auto simp add: New_unfold split: if_splits)
  show ?thesis
  proof (cases "ms r = ?m")
    case False
    then show ?thesis using assms le
      by (auto simp add: New_unfold read_other_ms not_less [symmetric])
  next
    case True
    have nomax: "\<not> (hi r = - 1 \<and> lo r = - 1)"
      using assms le True read_same_ms_error [of r ?m "replicate 10 0"]
      by (auto simp add: New_unfold not_less [symmetric] split: if_splits)
    from read_same_ms_ok [OF True nomax] obtain r1 where
      "read r (replicate 10 0) ?m = (None, r1, ent_bytes r1)" "ms r1 = ?m" by blast
    then show ?thesis using assms le
      by (auto simp add: New_unfold not_less [symmetric])
  qed
qed

lemma New_same_ms_ok:
  assumes "ms r = Timestamp now" and "Timestamp now \<le> MaxTimestamp" and "counter r < 2 ^ 80 - 1"
  shows "\<exists>r'. New r now = ((ts_bytes (Timestamp now) @ ent_bytes r', None), r') \<and>
              counter r' = counter r + 1 \<and> ms r' = Timestamp now"
proof -
  have nomax: "\<not> (hi r = - 1 \<and> lo r = - 1)"
    using assms(3) counter_below_max_iff [of r] by blast
  from read_same_ms_ok [OF assms(1) nomax] obtain r1 where
    "read r (replicate 10 0) (Timestamp now) = (None, r1, ent_bytes r1)"
    "counter r1 = counter r + 1" "ms r1 = Timestamp now" by blast
  then show ?thesis using assms(2)
    by (auto simp add: New_unfold not_less [symmetric])
qed

lemma entropy_value_id: "entropy_value (ts_bytes m @ ent_bytes r) = counter r"
  by (simp add: entropy_value_def be_nat_ent_bytes)

lemma take6_id: "take 6 (ts_bytes m @ ent_bytes r) = ts_bytes m"
  by simp

text \<open>
  C1. Let a call of \<open>New\<close> have produced an identifier, and let the next call on the
  same generator read a time in the same millisecond. If the 80-bit counter is below
  \<open>2^80 - 1\<close> the second call produces an identifier too; and whenever it produces
  one, the two identifiers have the same bytes 0-5 and the 80-bit big-endian value of
  bytes 6-15 of the second is that of the first plus one.
\<close>

theorem New_consecutive_same_ms:
  assumes "New r t1 = ((id1, None), r1)" and "Timestamp t2 = Timestamp t1"
  shows "(counter r1 < 2 ^ 80 - 1 \<longrightarrow>
            (\<exists>id2 r2. New r1 t2 = ((id2, None), r2))) \<and>
         (\<forall>id2 r2. New r1 t2 = ((id2, None), r2) \<longrightarrow>
            take 6 id2 = take 6 id1 \<and> entropy_value id2 = entropy_value id1 + 1)"
proof -
  from New_success [OF assms(1)] have
    le: "Timestamp t1 \<le> MaxTimestamp" and m1: "ms r1 = Timestamp t1"
    and id1: "id1 = ts_bytes (Timestamp t1) @ ent_bytes r1" by simp_all
  have a: "\<exists>id2 r2. New r1 t2 = ((id2, None), r2)" if "counter r1 < 2 ^ 80 - 1"
    using New_same_ms_ok [of r1 t2] that le m1 assms(2) by auto
  have b: "take 6 id2 = take 6 id1 \<and> entropy_value id2 = entropy_value id1 + 1"
    if ok: "New r1 t2 = ((id2, None), r2)" for id2 r2
  proof -
    have "fst (read r1 (replicate 10 0) (Timestamp t2)) = None"
      using ok le assms(2) by (auto simp add: New_unfold not_less [symmetric] split: if_splits)
    then have "\<not> (hi r1 = - 1 \<and> lo r1 = - 1)"
      using read_same_ms_error [of r1 "Timestamp t2" "replicate 10 0"] m1 assms(2)
      by (auto split: if_splits)
    then have "counter r1 < 2 ^ 80 - 1"
      using counter_below_max_iff [of r1] by blast
    from New_same_ms_ok [of r1 t2, OF _ _ this] m1 assms(2) le obtain r' where
      "New r1 t2 = ((ts_bytes (Timestamp t2) @ ent_bytes r', None), r')"
      "counter r' = counter r1 + 1" by auto
    then show ?thesis using ok id1 assms(2) by (simp add: entropy_value_id)
  qed
  from a b show ?thesis by blast
qed

theorem New_consecutive_same_ms_witness:
  "New \<lparr>seed = 1, ms = 1000, hi = 0, lo = 7\<rparr> \<lparr>t_sec = 1, t_nsec = 0\<rparr>
     = (([0, 0, 0, 0, 3, 232, 0, 0, 0, 0, 0, 0, 0, 0, 0, 8], None),
        \<lparr>seed = 1, ms = 1000, hi = 0, lo = 8\<rparr>) \<and>
   Timestamp \<lparr>t_sec = 1, t_nsec = 500000\<rparr> = Timestamp \<lparr>t_sec = 1, t_nsec = 0\<rparr> \<and>
   counter \<lparr>seed = 1, ms = 1000, hi = 0, lo = 8\<rparr> < 2 ^ 80 - 1 \<and>
   New \<lparr>seed = 1, ms = 1000, hi = 0, lo = 8\<rparr> \<lparr>t_sec = 1, t_nsec = 500000\<rparr>
     = (([0, 0, 0, 0, 3, 232, 0, 0, 0, 0, 0, 0, 0, 0, 0, 9], None),
        \<lparr>seed = 1, ms = 1000, hi = 0, lo = 9\<rparr>) \<and>
   take 6 [0, 0, 0, 0, 3, 232, 0, 0, 0, 0, 0, 0, 0, 0, 0, 9 :: byte]
     = take 6 [0, 0, 0, 0, 3, 232, 0, 0, 0, 0, 0, 0, 0, 0, 0, 8] \<and>
   entropy_value [0, 0, 0, 0, 3, 232, 0, 0, 0, 0, 0, 0, 0, 0, 0, 9]
     = entropy_value [0, 0, 0, 0, 3, 232, 0, 0, 0, 0, 0, 0, 0, 0, 0, 8] + 1"
proof -
  have c1: "New \<lparr>seed = 1, ms = 1000, hi = 0, lo = 7\<rparr> \<lparr>t_sec = 1, t_nsec = 0\<rparr>
     = (([0, 0, 0, 0, 3, 232, 0, 0, 0, 0, 0, 0, 0, 0, 0, 8], None),
        \<lparr>seed = 1, ms = 1000, hi = 0, lo = 8\<rparr>)"
    by code_simp
  have c2: "New \<lparr>seed = 1, ms = 1000, hi = 0, lo = 8\<rparr> \<lparr>t_sec = 1, t_nsec = 500000\<rparr>
     = (([0, 0, 0, 0, 3, 232, 0, 0, 0, 0, 0, 0, 0, 0, 0, 9], None),
        \<lparr>seed = 1, ms = 1000, hi = 0, lo = 9\<rparr>)"
    by code_simp
  have t: "Timestamp \<lparr>t_sec = 1, t_nsec = 500000\<rparr> = Timestamp \<lparr>t_sec = 1, t_nsec = 0\<rparr>"
    by code_simp
  have c: "counter \<lparr>seed = 1, ms = 1000, hi = 0, lo = 8\<rparr> < 2 ^ 80 - 1"
    by (simp add: counter_def)
  from New_consecutive_same_ms [OF c1 t] c1 c2 t c show ?thesis by simp
qed

lemma New_same_ms_overflow:
  assumes "ms r = Timestamp now" and "Timestamp now \<le> MaxTimestamp" and "counter r = 2 ^ 80 - 1"
  shows "New r now = ((ts_bytes (Timestamp now) @ replicate 10 0, Some ErrMonotonicOverflow),
                      r\<lparr>hi := 0, lo := 0\<rparr>)"
proof -
  have "hi r = - 1" "lo r = - 1" using assms(3) counter_max_iff [of r] by simp_all
  then show ?thesis using assms(1,2)
    by (simp add: New_unfold not_less [symmetric] read_same_ms_overflow)
qed

text \<open>
  C9. Let a call of \<open>New\<close> have issued an identifier and left the counter at
  \<open>2^80 - 1\<close> (the entropy of that identifier). A second call in the same
  millisecond returns \<open>ErrMonotonicOverflow\<close>, and the generator it leaves behind has
  both counter halves wrapped to zero and the last-seen millisecond unchanged. A third
  call in that millisecond therefore succeeds, with the same timestamp bytes and the
  entropy value 1, which is smaller than the entropy already issued.
\<close>

theorem New_overflow_state_wrapped:
  assumes "New r0 t0 = ((id0, None), r1)" and "counter r1 = 2 ^ 80 - 1"
    and "Timestamp t1 = Timestamp t0" and "Timestamp t2 = Timestamp t0"
  shows "entropy_value id0 = 2 ^ 80 - 1 \<and>
         snd (fst (New r1 t1)) = Some ErrMonotonicOverflow \<and>
         snd (New r1 t1) = r1\<lparr>hi := 0, lo := 0\<rparr> \<and>
         ms (snd (New r1 t1)) = ms r1 \<and>
         snd (fst (New (snd (New r1 t1)) t2)) = None \<and>
         take 6 (fst (fst (New (snd (New r1 t1)) t2))) = take 6 id0 \<and>
         entropy_value (fst (fst (New (snd (New r1 t1)) t2))) = 1"
proof -
  from New_success [OF assms(1)] have
    le: "Timestamp t0 \<le> MaxTimestamp" and m1: "ms r1 = Timestamp t0"
    and id0: "id0 = ts_bytes (Timestamp t0) @ ent_bytes r1" by simp_all
  have e0: "entropy_value id0 = 2 ^ 80 - 1"
    using id0 assms(2) by (simp add: entropy_value_id)
  have ov: "New r1 t1 = ((ts_bytes (Timestamp t1) @ replicate 10 0, Some ErrMonotonicOverflow),
                         r1\<lparr>hi := 0, lo := 0\<rparr>)"
    using New_same_ms_overflow [of r1 t1] m1 le assms(2,3) by simp
  let ?r2 = "r1\<lparr>hi := 0, lo := 0\<rparr>"
  have c2: "counter ?r2 < 2 ^ 80 - 1" by (simp add: counter_def)
  from New_same_ms_ok [of ?r2 t2, OF _ _ c2] m1 le assms(4) obtain r3 where
    n3: "New ?r2 t2 = ((ts_bytes (Timestamp t2) @ ent_bytes r3, None), r3)"
    and c3: "counter r3 = counter ?r2 + 1" by auto
  have "counter r3 = 1" using c3 by (simp add: counter_def)
  then show ?thesis using e0 ov n3 id0 assms(4) by (simp add: entropy_value_id)
qed

theorem New_overflow_state_wrapped_witness:
  "New \<lparr>seed = 1, ms = 1000, hi = 0xFFFF, lo = 0xFFFFFFFFFFFFFFFE\<rparr> \<lparr>t_sec = 1, t_nsec = 0\<rparr>
     = (([0, 0, 0, 0, 3, 232, 255, 255, 255, 255, 255, 255, 255, 255, 255, 255], None),
        \<lparr>seed = 1, ms = 1000, hi = 0xFFFF, lo = 0xFFFFFFFFFFFFFFFF\<rparr>) \<and>
   counter \<lparr>seed = 1, ms = 1000, hi = 0xFFFF, lo = 0xFFFFFFFFFFFFFFFF\<rparr> = 2 ^ 80 - 1 \<and>
   Timestamp \<lparr>t_sec = 1, t_nsec = 200000\<rparr> = Timestamp \<lparr>t_sec = 1, t_nsec = 0\<rparr> \<and>
   Timestamp \<lparr>t_sec = 1, t_nsec = 500000\<rparr> = Timestamp \<lparr>t_sec = 1, t_nsec = 0\<rparr> \<and>
   entropy_value [0, 0, 0, 0, 3, 232, 255, 255, 255, 255, 255, 255, 255, 255, 255, 255] = 2 ^ 80 - 1 \<and>
   snd (fst (New \<lparr>seed = 1, ms = 1000, hi = 0xFFFF, lo = 0xFFFFFFFFFFFFFFFF\<rparr>
                 \<lparr>t_sec = 1, t_nsec = 200000\<rparr>)) = Some ErrMonotonicOverflow \<and>
   snd (New \<lparr>seed = 1, ms = 1000, hi = 0xFFFF, lo = 0xFFFFFFFFFFFFFFFF\<rparr>
            \<lparr>t_sec = 1, t_nsec = 200000\<rparr>) = \<lparr>seed = 1, ms = 1000, hi = 0, lo = 0\<rparr> \<and>
   New \<lparr>seed = 1, ms = 1000, hi = 0, lo = 0\<rparr> \<lparr>t_sec = 1, t_nsec = 500000\<rparr>
     = (([0, 0, 0, 0, 3, 232, 0, 0, 0, 0, 0, 0, 0, 0, 0, 1], None),
        \<lparr>seed = 1, ms = 1000, hi = 0, lo = 1\<rparr>) \<and>
   entropy_value [0, 0, 0, 0, 3, 232, 0, 0, 0, 0, 0, 0, 0, 0, 0, 1] = 1"
proof -
  let ?r0 = "\<lparr>seed = 1, ms = 1000, hi = 0xFFFF, lo = 0xFFFFFFFFFFFFFFFE\<rparr>"
  let ?r1 = "\<lparr>seed = 1, ms = 1000, hi = 0xFFFF, lo = 0xFFFFFFFFFFFFFFFF\<rparr>"
  let ?id0 = "[0, 0, 0, 0, 3, 232, 255, 255, 255, 255, 255, 255, 255, 255, 255, 255] :: byte list"
  have c0: "New ?r0 \<lparr>t_sec = 1, t_nsec = 0\<rparr> = ((?id0, None), ?r1)"
    by code_simp
  have c: "counter ?r1 = 2 ^ 80 - 1"
    by (simp add: counter_def)
  have t1: "Timestamp \<lparr>t_sec = 1, t_nsec = 200000\<rparr> = Timestamp \<lparr>t_sec = 1, t_nsec = 0\<rparr>"
    by code_simp
  have t2: "Timestamp \<lparr>t_sec = 1, t_nsec = 500000\<rparr> = Timestamp \<lparr>t_sec = 1, t_nsec = 0\<rparr>"
    by code_simp
  have c3: "New \<lparr>seed = 1, ms = 1000, hi = 0, lo = 0\<rparr> \<lparr>t_sec = 1, t_nsec = 500000\<rparr>
     = (([0, 0, 0, 0, 3, 232, 0, 0, 0, 0, 0, 0, 0, 0, 0, 1], None),
        \<lparr>seed = 1, ms = 1000, hi = 0, lo = 1\<rparr>)"
    by code_simp
  note th = New_overflow_state_wrapped [OF c0 c t1 t2]
  from th have s: "snd (New ?r1 \<lparr>t_sec = 1, t_nsec = 200000\<rparr>)
                     = \<lparr>seed = 1, ms = 1000, hi = 0, lo = 0\<rparr>" by (elim conjE) simp
  from th have "entropy_value (fst (fst (New (snd (New ?r1 \<lparr>t_sec = 1, t_nsec = 200000\<rparr>))
                                            \<lparr>t_sec = 1, t_nsec = 500000\<rparr>))) = 1" by (elim conjE) simp
  then have e: "entropy_value [0, 0, 0, 0, 3, 232, 0, 0, 0, 0, 0, 0, 0, 0, 0, 1] = 1"
    unfolding s c3 by simp
  from th have "entropy_value ?id0 = 2 ^ 80 - 1
      \<and> snd (fst (New ?r1 \<lparr>t_sec = 1, t_nsec = 200000\<rparr>)) = Some ErrMonotonicOverflow"
    by (elim conjE) simp
  with c0 c t1 t2 c3 s e show ?thesis by simp
qed

lemma bit_le_MaxTimestamp:
  assumes "m \<le> MaxTimestamp" and "bit m n"
  shows "n < 48"
proof -
  have "unat m < 2 ^ 48" using assms(1) by (simp add: MaxTimestamp_def word_le_nat_alt)
  then have "take_bit 48 (unat m) = unat m" by (simp add: take_bit_nat_eq_self)
  moreover have "bit (unat m) n" using assms(2) by (simp add: bit_unsigned_iff)
  ultimately have "bit (take_bit 48 (unat m)) n" by simp
  then show ?thesis by (simp add: bit_take_bit_iff)
qed

lemma bit_byte_at:
  "bit (push_bit k (ucast (ucast (drop_bit k m) :: byte) :: uint64)) n
     = (k \<le> n \<and> n < k + 8 \<and> n < 64 \<and> bit m n)"
  for m :: uint64
  by (auto simp add: bit_simps)

lemma bit_byte_0:
  "bit (ucast (ucast m :: byte) :: uint64) n = (n < 8 \<and> bit m n)"
  for m :: uint64
  by (auto simp add: bit_simps)

lemma Timestamp_of_ts_bytes:
  assumes "m \<le> MaxTimestamp"
  shows "Timestamp_of (ts_bytes m @ xs) = m"
proof (rule bit_word_eqI)
  fix n :: nat
  assume n: "n < LENGTH(64)"
  have hi: "n < 48" if "bit m n"
    using bit_le_MaxTimestamp [OF assms that] .
  have "bit (Timestamp_of (ts_bytes m @ xs)) n = (n < 48 \<and> bit m n)"
    using n by (simp add: Timestamp_of_def ts_bytes_def bit_or_iff bit_byte_at bit_byte_0) arith
  then show "bit (Timestamp_of (ts_bytes m @ xs)) n = bit m n"
    using hi by blast
qed

text \<open>
  C3 as stated fails when the clock reads a millisecond beyond \<open>MaxTimestamp\<close>: the
  millisecond differs from the last-seen one, yet \<open>New\<close> returns \<open>ErrBigTime\<close> from
  the range check of \<open>SetTimestamp\<close> and leaves the generator untouched.
\<close>

theorem New_big_time_counterexample:
  "ms (NewGeneratorWithSeed 1) \<noteq> Timestamp \<lparr>t_sec = 281474976710, t_nsec = 656000000\<rparr> \<and>
   New (NewGeneratorWithSeed 1) \<lparr>t_sec = 281474976710, t_nsec = 656000000\<rparr>
     = ((zero_UULID, Some ErrBigTime), NewGeneratorWithSeed 1)"
  by code_simp

lemma New_big_time:
  "MaxTimestamp < Timestamp now \<Longrightarrow> New r now = ((zero_UULID, Some ErrBigTime), r)"
  by (simp add: New_unfold)

text \<open>
  C3 (as amended). Whenever the millisecond of the current time differs from the
  generator's last-seen millisecond (smaller ones included) and does not exceed
  \<open>MaxTimestamp\<close>, \<open>New\<close> returns no error: the generator after the call is
  \<open>advance\<close> of the old one, whose last-seen millisecond is the new millisecond, whose
  high half is the low 16 bits of one \<open>uint64r\<close> step and whose low half is the output
  of the next step; the identifier carries the timestamp in bytes 0-5 and the fresh
  counter, big-endian, in bytes 6-15. Whenever the millisecond exceeds
  \<open>MaxTimestamp\<close>, \<open>New\<close> fails with \<open>ErrBigTime\<close> and leaves the generator
  unchanged.
\<close>

theorem New_other_ms_regenerates:
  "(ms r \<noteq> Timestamp now \<and> Timestamp now \<le> MaxTimestamp \<longrightarrow>
      New r now = ((fst (fst (New r now)), None), advance r (Timestamp now)) \<and>
      ms (advance r (Timestamp now)) = Timestamp now \<and>
      hi (advance r (Timestamp now)) = ucast (fst (uint64r (r\<lparr>ms := Timestamp now\<rparr>))) \<and>
      lo (advance r (Timestamp now))
        = fst (uint64r (snd (uint64r (r\<lparr>ms := Timestamp now\<rparr>)))) \<and>
      length (fst (fst (New r now))) = 16 \<and>
      Timestamp_of (fst (fst (New r now))) = Timestamp now \<and>
      drop 6 (fst (fst (New r now)))
        = PutUint16 (replicate 2 0) (hi (advance r (Timestamp now))) @
          PutUint64 (replicate 8 0) (lo (advance r (Timestamp now))) \<and>
      entropy_value (fst (fst (New r now))) = counter (advance r (Timestamp now))) \<and>
   (MaxTimestamp < Timestamp now \<longrightarrow>
      New r now = ((zero_UULID, Some ErrBigTime), r))"
proof -
  let ?m = "Timestamp now"
  have A: "New r now = ((fst (fst (New r now)), None), advance r ?m) \<and>
      ms (advance r ?m) = ?m \<and>
      hi (advance r ?m) = ucast (fst (uint64r (r\<lparr>ms := ?m\<rparr>))) \<and>
      lo (advance r ?m) = fst (uint64r (snd (uint64r (r\<lparr>ms := ?m\<rparr>)))) \<and>
      length (fst (fst (New r now))) = 16 \<and>
      Timestamp_of (fst (fst (New r now))) = ?m \<and>
      drop 6 (fst (fst (New r now)))
        = PutUint16 (replicate 2 0) (hi (advance r ?m)) @
          PutUint64 (replicate 8 0) (lo (advance r ?m)) \<and>
      entropy_value (fst (fst (New r now))) = counter (advance r ?m)"
    if d: "ms r \<noteq> ?m" and le: "?m \<le> MaxTimestamp"
  proof -
    have n: "New r now = ((ts_bytes ?m @ ent_bytes (advance r ?m), None), advance r ?m)"
      using d le by (simp add: New_unfold not_less [symmetric] read_other_ms)
    have t: "Timestamp_of (ts_bytes ?m @ ent_bytes (advance r ?m)) = ?m"
      using le by (simp add: Timestamp_of_ts_bytes)
    show ?thesis
      unfolding n
      by (simp add: t entropy_value_id)
         (simp add: ent_bytes_def advance_def Let_def split_beta uint64r_def)
  qed
  have B: "New r now = ((zero_UULID, Some ErrBigTime), r)" if "MaxTimestamp < ?m"
    using that by (rule New_big_time)
  from A B show ?thesis by blast
qed

theorem New_other_ms_regenerates_witness:
  "ms \<lparr>seed = 1, ms = 2000, hi = 5, lo = 9\<rparr> \<noteq> Timestamp \<lparr>t_sec = 1, t_nsec = 0\<rparr> \<and>
   Timestamp \<lparr>t_sec = 1, t_nsec = 0\<rparr> < ms \<lparr>seed = 1, ms = 2000, hi = 5, lo = 9\<rparr> \<and>
   Timestamp \<lparr>t_sec = 1, t_nsec = 0\<rparr> \<le> MaxTimestamp \<and>
   New \<lparr>seed = 1, ms = 2000, hi = 5, lo = 9\<rparr> \<lparr>t_sec = 1, t_nsec = 0\<rparr>
     = (([0, 0, 0, 0, 3, 232, 237, 44, 97, 214, 210, 75, 28, 154, 173, 64], None),
        \<lparr>seed = 4678178747650328671, ms = 1000, hi = 60716, lo = 7050053486739369280\<rparr>) \<and>
   advance \<lparr>seed = 1, ms = 2000, hi = 5, lo = 9\<rparr> 1000
     = \<lparr>seed = 4678178747650328671, ms = 1000, hi = 60716, lo = 7050053486739369280\<rparr> \<and>
   entropy_value [0, 0, 0, 0, 3, 232, 237, 44, 97, 214, 210, 75, 28, 154, 173, 64]
     = 1120019563232835875286336 \<and>
   MaxTimestamp < Timestamp \<lparr>t_sec = - 1, t_nsec = 0\<rparr> \<and>
   New \<lparr>seed = 1, ms = 2000, hi = 5, lo = 9\<rparr> \<lparr>t_sec = - 1, t_nsec = 0\<rparr>
     = ((zero_UULID, Some ErrBigTime), \<lparr>seed = 1, ms = 2000, hi = 5, lo = 9\<rparr>)"
proof -
  let ?r = "\<lparr>seed = 1, ms = 2000, hi = 5, lo = 9\<rparr>"
  let ?t = "\<lparr>t_sec = 1, t_nsec = 0\<rparr>"
  let ?b = "\<lparr>t_sec = - 1, t_nsec = 0\<rparr>"
  have t: "Timestamp ?t = 1000" by code_simp
  have h1: "ms ?r \<noteq> Timestamp ?t" unfolding t by simp
  have h2: "Timestamp ?t \<le> MaxTimestamp" unfolding t by (simp add: MaxTimestamp_def)
  have a: "advance ?r 1000
     = \<lparr>seed = 4678178747650328671, ms = 1000, hi = 60716, lo = 7050053486739369280\<rparr>"
    by code_simp
  have n: "fst (fst (New ?r ?t)) = [0, 0, 0, 0, 3, 232, 237, 44, 97, 214, 210, 75, 28, 154, 173, 64]"
    by code_simp
  note th = New_other_ms_regenerates [of ?r ?t]
  from th h1 h2 have n1: "New ?r ?t = ((fst (fst (New ?r ?t)), None), advance ?r (Timestamp ?t))"
    by blast
  from th h1 h2
  have "entropy_value (fst (fst (New ?r ?t))) = counter (advance ?r (Timestamp ?t))"
    by blast
  then have e: "entropy_value [0, 0, 0, 0, 3, 232, 237, 44, 97, 214, 210, 75, 28, 154, 173, 64]
     = 1120019563232835875286336"
    unfolding n t a by (simp add: counter_def)
  have lt: "Timestamp ?t < ms ?r" unfolding t by simp
  from n1 have nn: "New ?r ?t
     = (([0, 0, 0, 0, 3, 232, 237, 44, 97, 214, 210, 75, 28, 154, 173, 64], None),
        \<lparr>seed = 4678178747650328671, ms = 1000, hi = 60716, lo = 7050053486739369280\<rparr>)"
    unfolding n t a .
  have big: "MaxTimestamp < Timestamp ?b" by code_simp
  from New_other_ms_regenerates [of ?r ?b] big
  have nb: "New ?r ?b = ((zero_UULID, Some ErrBigTime), ?r)" by blast
  from h1 h2 lt a e nn big nb show ?thesis by blast
qed

section \<open>The 128-bit product and the entropy step\<close>

lemma mul_hi_nat:
  fixes K :: nat
  assumes K: "0 < K"
  shows "((x1 * K + x0) * (y1 * K + y0)) div (K * K)
         = x1 * y1 + (x1 * y0 + (x0 * y0) div K) div K
           + ((x1 * y0 + (x0 * y0) div K) mod K + x0 * y1) div K"
proof -
  define A where "A = x1 * y0"
  define B where "B = x0 * y1"
  define C where "C = x0 * y0"
  define T where "T = A + C div K"
  have e: "(x1 * K + x0) * (y1 * K + y0) = ((A + B) * K + C) + x1 * y1 * (K * K)"
    by (simp add: A_def B_def C_def algebra_simps)
  have d: "((A + B) * K + C) div K = A + B + C div K"
    using K by simp
  have tb: "A + B + C div K = T + B"
    by (simp add: T_def)
  have "((A + B) * K + C) div (K * K) = (((A + B) * K + C) div K) div K"
    by (simp only: div_mult2_eq)
  then have n: "((A + B) * K + C) div (K * K) = (T + B) div K"
    by (simp only: d tb)
  have "T div K * K + (T mod K + B) = T + B"
    by (simp only: add.assoc [symmetric] div_mult_mod_eq)
  moreover have "(T div K * K + (T mod K + B)) div K = T div K + (T mod K + B) div K"
    by (rule div_mult_self3) (use K in simp)
  ultimately have "(T + B) div K = T div K + (T mod K + B) div K"
    by simp
  with n have "((A + B) * K + C) div (K * K) = T div K + (T mod K + B) div K"
    by (simp only:)
  moreover have "(((A + B) * K + C) + x1 * y1 * (K * K)) div (K * K)
        = x1 * y1 + ((A + B) * K + C) div (K * K)"
    by (rule div_mult_self1) (use K in simp)
  ultimately show ?thesis
    unfolding e by (simp only: T_def A_def B_def C_def add.assoc)
qed

lemma mul_add_bound:
  fixes K :: nat
  assumes "a < K" and "b \<le> K" and "c < K"
  shows "a * b + c < K * K"
proof -
  have "a * b \<le> a * K" using assms(2) by (rule mult_le_mono2)
  then have "a * b + c < a * K + K" using assms(3) by arith
  also have "a * K + K = Suc a * K" by simp
  also have "\<dots> \<le> K * K" using assms(1) by (simp only: mult_le_mono1 Suc_leI)
  finally show ?thesis .
qed

lemma unat_low32: "unat (x AND 0xFFFFFFFF) = unat x mod 2 ^ 32" for x :: uint64
proof -
  have "(0xFFFFFFFF :: uint64) = mask 32" by (simp add: mask_eq_exp_minus_1)
  then have "x AND 0xFFFFFFFF = take_bit 32 x" by (simp only: take_bit_eq_mask)
  moreover have "unat (take_bit 32 x) = take_bit 32 (unat x)" by (rule unsigned_take_bit_eq)
  ultimately show ?thesis by (simp only: take_bit_eq_mod)
qed

lemma unat_mult_small:
  "unat a * unat b < 2 ^ 64 \<Longrightarrow> unat (a * b) = unat a * unat b" for a b :: uint64
  by (simp add: unat_word_ariths)

lemma unat_add_small:
  "unat a + unat b < 2 ^ 64 \<Longrightarrow> unat (a + b) = unat a + unat b" for a b :: uint64
  by (simp add: unat_word_ariths)

lemma Mul64_hi:
  "unat (fst (Mul64 x y)) = (unat x * unat y) div 2 ^ 64"
proof -
  define K :: nat where "K = 2 ^ 32"
  have K: "0 < K" and KK: "K * K = 2 ^ 64" by (simp_all add: K_def)
  define X0 X1 Y0 Y1 where "X0 = unat x mod K" and "X1 = unat x div K"
    and "Y0 = unat y mod K" and "Y1 = unat y div K"
  have ux: "unat x < K * K" and uy: "unat y < K * K"
    unfolding KK using unsigned_less [of x] unsigned_less [of y] by simp_all
  have bX0: "X0 < K" and bY0: "Y0 < K" using K by (simp_all add: X0_def Y0_def)
  have bX1: "X1 < K" using ux K unfolding X1_def by (simp add: less_mult_imp_div_less)
  have bY1: "Y1 < K" using uy K unfolding Y1_def by (simp add: less_mult_imp_div_less)
  define x0 x1 y0 y1 where "x0 = x AND 0xFFFFFFFF" and "x1 = drop_bit 32 x"
    and "y0 = y AND 0xFFFFFFFF" and "y1 = drop_bit 32 y"
  have x0: "unat x0 = X0" and y0: "unat y0 = Y0"
    by (simp_all add: x0_def y0_def X0_def Y0_def K_def unat_low32)
  have x1: "unat x1 = X1" and y1: "unat y1 = Y1"
    by (simp_all add: x1_def y1_def X1_def Y1_def K_def unat_drop_bit_div)
  define w0 where "w0 = x0 * y0"
  have "X0 * Y0 < K * K" using mul_add_bound [of X0 K Y0 0] bX0 bY0 K by simp
  then have w0: "unat w0 = X0 * Y0"
    unfolding w0_def using unat_mult_small [of x0 y0] by (simp add: x0 y0 KK)
  have w0s: "unat (drop_bit 32 w0) = X0 * Y0 div K"
    by (simp add: unat_drop_bit_div w0 K_def)
  have w0b: "X0 * Y0 div K < K"
    using \<open>X0 * Y0 < K * K\<close> K by (simp add: less_mult_imp_div_less)
  define t where "t = x1 * y0 + drop_bit 32 w0"
  define T where "T = X1 * Y0 + X0 * Y0 div K"
  have Tb: "T < K * K" unfolding T_def using mul_add_bound [of X1 K Y0 "X0 * Y0 div K"] bX1 bY0 w0b by simp
  have "X1 * Y0 < K * K" using mul_add_bound [of X1 K Y0 0] bX1 bY0 K by simp
  then have p1: "unat (x1 * y0) = X1 * Y0"
    using unat_mult_small [of x1 y0] by (simp add: x1 y0 KK)
  have t: "unat t = T"
    unfolding t_def T_def using unat_add_small [of "x1 * y0" "drop_bit 32 w0"] Tb
    by (simp add: p1 w0s KK T_def)
  define w1 where "w1 = (t AND 0xFFFFFFFF) + x0 * y1"
  define W1 where "W1 = T mod K + X0 * Y1"
  have W1b: "W1 < K * K"
    unfolding W1_def using mul_add_bound [of X0 K Y1 "T mod K"] bX0 bY1 K by (simp add: add.commute)
  have "X0 * Y1 < K * K" using mul_add_bound [of X0 K Y1 0] bX0 bY1 K by simp
  then have p2: "unat (x0 * y1) = X0 * Y1"
    using unat_mult_small [of x0 y1] by (simp add: x0 y1 KK)
  have tl: "unat (t AND 0xFFFFFFFF) = T mod K" by (simp add: unat_low32 t K_def)
  have w1: "unat w1 = W1"
    unfolding w1_def W1_def using unat_add_small [of "t AND 0xFFFFFFFF" "x0 * y1"] W1b
    by (simp add: p2 tl KK W1_def)
  have w2: "unat (drop_bit 32 t) = T div K" by (simp add: unat_drop_bit_div t K_def)
  have w1s: "unat (drop_bit 32 w1) = W1 div K" by (simp add: unat_drop_bit_div w1 K_def)
  have xy: "unat x = X1 * K + X0" "unat y = Y1 * K + Y0"
    by (simp_all add: X0_def X1_def Y0_def Y1_def)
  have hi: "unat x * unat y div (K * K) = X1 * Y1 + T div K + W1 div K"
    unfolding xy T_def W1_def by (rule mul_hi_nat [OF K])
  have "unat x * unat y < (K * K) * (K * K)"
    using ux uy by (simp only: mult_strict_mono')
  then have hb: "unat x * unat y div (K * K) < K * K"
    using K by (simp add: less_mult_imp_div_less)
  have "X1 * Y1 < K * K" using mul_add_bound [of X1 K Y1 0] bX1 bY1 K by simp
  then have p3: "unat (x1 * y1) = X1 * Y1"
    using unat_mult_small [of x1 y1] by (simp add: x1 y1 KK)
  have s1: "unat (x1 * y1 + drop_bit 32 t) = X1 * Y1 + T div K"
    using unat_add_small [of "x1 * y1" "drop_bit 32 t"] hb hi by (simp add: p3 w2 KK)
  have s2: "unat (x1 * y1 + drop_bit 32 t + drop_bit 32 w1) = X1 * Y1 + T div K + W1 div K"
    using unat_add_small [of "x1 * y1 + drop_bit 32 t" "drop_bit 32 w1"] hb hi
    by (simp add: s1 w1s KK)
  have "fst (Mul64 x y) = x1 * y1 + drop_bit 32 t + drop_bit 32 w1"
    by (simp add: Mul64_def Let_def x0_def x1_def y0_def y1_def w0_def t_def w1_def)
  then show ?thesis using s2 hi by (simp add: KK)
qed

lemma unat_xor_word: "unat (a XOR b) = unat a XOR unat b" for a b :: "'a::len word"
  by (simp add: unsigned_xor_eq)

lemma uint64r_spec:
  "unat (fst (uint64r r)) = fst (entropy_step_spec (unat (seed r))) \<and>
   unat (seed (snd (uint64r r))) = snd (entropy_step_spec (unat (seed r))) \<and>
   ms (snd (uint64r r)) = ms r \<and> hi (snd (uint64r r)) = hi r \<and> lo (snd (uint64r r)) = lo r"
proof -
  define s' where "s' = seed r + 0xa0761d6478bd642f"
  define a where "a = s' XOR 0xe7037ed1a0b428db"
  have s': "unat s' = (unat (seed r) + 0xA0761D6478BD642F) mod 2 ^ 64"
    unfolding s'_def by (simp add: unat_word_ariths)
  have a: "unat a = (unat s' XOR 0xE7037ED1A0B428DB)"
    unfolding a_def by (simp add: unat_xor_word)
  have u: "uint64r r = (fst (Mul64 a s') XOR snd (Mul64 a s'), r\<lparr>seed := s'\<rparr>)"
    by (simp add: uint64r_def Let_def split_beta a_def s'_def)
  have l: "unat (snd (Mul64 a s')) = unat a * unat s' mod 2 ^ 64"
    by (simp add: Mul64_def Let_def unat_word_ariths)
  have "unat (fst (uint64r r))
          = (unat a * unat s' div 2 ^ 64) XOR (unat a * unat s' mod 2 ^ 64)"
    unfolding u by (simp only: fst_conv unat_xor_word Mul64_hi l)
  moreover have "entropy_step_spec (unat (seed r))
          = ((unat a * unat s' div 2 ^ 64) XOR (unat a * unat s' mod 2 ^ 64), unat s')"
    by (simp only: entropy_step_spec_def Let_def a s')
  ultimately show ?thesis by (simp add: u)
qed

lemma advance_unfold:
  "advance r m =
     (snd (uint64r ((snd (uint64r (r\<lparr>ms := m\<rparr>)))\<lparr>hi := ucast (fst (uint64r (r\<lparr>ms := m\<rparr>)))\<rparr>)))
       \<lparr>lo := fst (uint64r ((snd (uint64r (r\<lparr>ms := m\<rparr>)))
                                 \<lparr>hi := ucast (fst (uint64r (r\<lparr>ms := m\<rparr>)))\<rparr>))\<rparr>"
  by (simp add: advance_def Let_def split_beta)

text \<open>
  C7. One call of \<open>uint64r\<close> is one entropy step as the specification words it
  (\<open>entropy_step_spec\<close>, on natural numbers): the seed becomes
  \<open>(seed + 0xA0761D6478BD642F) mod 2^64\<close>, and the output is the XOR of the high and low
  64-bit halves of the 128-bit product of \<open>seed XOR 0xE7037ED1A0B428DB\<close> and \<open>seed\<close>;
  no other field changes. \<open>advance\<close> performs exactly two such steps: the new high
  half is the low 16 bits of the first step's output, the new low half is the whole
  output of the second step, and the seed has advanced twice.
\<close>

theorem uint64r_advance_refine_spec:
  "unat (fst (uint64r r)) = fst (entropy_step_spec (unat (seed r))) \<and>
   unat (seed (snd (uint64r r))) = snd (entropy_step_spec (unat (seed r))) \<and>
   ms (snd (uint64r r)) = ms r \<and> hi (snd (uint64r r)) = hi r \<and> lo (snd (uint64r r)) = lo r \<and>
   unat (hi (advance r m)) = fst (entropy_step_spec (unat (seed r))) mod 2 ^ 16 \<and>
   unat (lo (advance r m))
     = fst (entropy_step_spec (snd (entropy_step_spec (unat (seed r))))) \<and>
   unat (seed (advance r m))
     = snd (entropy_step_spec (snd (entropy_step_spec (unat (seed r))))) \<and>
   ms (advance r m) = m"
proof -
  let ?r1 = "r\<lparr>ms := m\<rparr>"
  let ?v1 = "fst (uint64r ?r1)"
  let ?r3 = "(snd (uint64r ?r1))\<lparr>hi := ucast ?v1\<rparr>"
  note a = uint64r_spec [of r]
  note b = uint64r_spec [of ?r1]
  note c = uint64r_spec [of ?r3]
  have v1: "unat ?v1 = fst (entropy_step_spec (unat (seed r)))"
    using b by simp
  have s1: "unat (seed ?r3) = snd (entropy_step_spec (unat (seed r)))"
    using b by simp
  have h: "unat (hi (advance r m)) = unat ?v1 mod 2 ^ 16"
    using c by (simp add: advance_unfold unsigned_ucast_eq take_bit_eq_mod)
  have l: "unat (lo (advance r m)) = fst (entropy_step_spec (unat (seed ?r3)))"
    using c by (simp add: advance_unfold)
  have s: "unat (seed (advance r m)) = snd (entropy_step_spec (unat (seed ?r3)))"
    using c by (simp add: advance_unfold)
  show ?thesis
    using a h l s by (simp only: v1 s1 ms_advance)
qed

section \<open>Time codec: round trip\<close>

lemma sint_small64: "uint w < 2 ^ 63 \<Longrightarrow> sint w = uint w" for w :: "64 word"
proof -
  assume a: "uint w < 2 ^ 63"
  have "- (2 ^ 63) \<le> (0::int)" by simp
  then have b: "- (2 ^ 63) \<le> uint w" using uint_ge_0 [of w] by (rule order_trans)
  have "signed_take_bit 63 (uint w) = uint w" using b a by (rule signed_take_bit_int_eq_self)
  then show ?thesis by (simp add: sint_uint)
qed

lemma sint_small32: "uint w < 2 ^ 31 \<Longrightarrow> sint w = uint w" for w :: "32 word"
proof -
  assume a: "uint w < 2 ^ 31"
  have "- (2 ^ 31) \<le> (0::int)" by simp
  then have b: "- (2 ^ 31) \<le> uint w" using uint_ge_0 [of w] by (rule order_trans)
  have "signed_take_bit 31 (uint w) = uint w" using b a by (rule signed_take_bit_int_eq_self)
  then show ?thesis by (simp add: sint_uint)
qed

lemma uint_mod_1000: "uint (m mod 1000) < 1000" for m :: uint64
proof -
  have "uint (m mod 1000) = uint m mod 1000" by (simp add: uint_mod_distrib)
  then show ?thesis by simp
qed

lemma uint_nsec:
  "uint ((m mod 1000) * 1000000) = uint (m mod 1000) * 1000000" for m :: uint64
proof -
  have "uint (m mod 1000) * 1000000 < 2 ^ 64" using uint_mod_1000 [of m] by simp
  then show ?thesis
    by (simp add: uint_word_ariths take_bit_eq_mod)
qed

lemma Time_eq:
  "Time m = \<lparr>t_sec = m div 1000, t_nsec = ucast ((m mod 1000) * 1000000)\<rparr>"
proof -
  let ?n = "(m mod 1000) * 1000000 :: uint64"
  have u: "uint ?n = uint (m mod 1000) * 1000000" by (rule uint_nsec)
  have b: "uint ?n < 1000000000" "0 \<le> uint ?n"
    unfolding u using uint_mod_1000 [of m] by simp_all
  have s: "sint ?n = uint ?n" using b by (intro sint_small64) simp
  have "\<not> word_sless ?n 0" using b by (simp add: word_sless_alt s)
  moreover have "\<not> word_sle 1000000000 ?n" using b by (simp add: word_sle_eq s)
  ultimately show ?thesis by (simp add: Time_def Unix_def)
qed

text \<open>
  C6. Converting a millisecond value to a wall-clock time with \<open>Time\<close> and back with
  \<open>Timestamp\<close> yields the value again. This holds for every 64-bit millisecond value,
  hence for every one in the range from 0 to \<open>2^48 - 1\<close> of the claim.
\<close>

theorem Timestamp_Time_roundtrip: "Timestamp (Time m) = m"
proof -
  let ?k = "m mod 1000 :: uint64"
  let ?n = "?k * 1000000 :: uint64"
  let ?w = "ucast ?n :: 32 word"
  have u: "uint ?n = uint ?k * 1000000" by (rule uint_nsec)
  have k: "uint ?k < 1000" "0 \<le> uint ?k" using uint_mod_1000 [of m] by simp_all
  have b: "uint ?n < 1000000000" "0 \<le> uint ?n" unfolding u using k by simp_all
  have w: "uint ?w = uint ?n"
    using b by (simp add: unsigned_ucast_eq take_bit_int_eq_self)
  have sw: "sint ?w = uint ?n"
    using b w sint_small32 [of ?w] by simp
  have c: "(scast ?w :: uint64) = ?n"
    by (simp only: scast_eq sw) simp
  have s: "sint ?n = uint ?k * 1000000"
    using b sint_small64 [of ?n] u by simp
  have pos: "uint ?k \<noteq> 0 \<Longrightarrow> 0 < uint ?k"
    using uint_ge_0 [of ?k] by linarith
  have "sint ?n sdiv sint (1000000 :: uint64) = uint ?k"
    using pos by (cases "uint ?k = 0") (simp_all add: s signed_divide_int_def sgn_if)
  then have d: "word_sdiv ?n 1000000 = ?k"
    by (simp only: word_sdiv_def) simp
  have "Timestamp (Time m) = m div 1000 * 1000 + ?k"
    by (simp add: Time_eq Timestamp_def c d)
  then show ?thesis by (simp add: div_mult_mod_eq)
qed

section \<open>Codec: the test vector\<close>

lemma Parse_encoded:
  "Parse encoded = ([0x01, 0x78, 0xa2, 0x84, 0x9e, 0xaf, 0xb3, 0xe7, 0x03, 0x6d, 0x5b, 0x1b,
                     0x9f, 0x3c, 0xd7, 0x53], None)"
  by code_simp

lemma Timestamp_of_encoded: "Timestamp_of (fst (Parse encoded)) = 1617634303663"
  by code_simp

lemma String_Parse_encoded: "String (fst (Parse encoded)) = encoded"
  by code_simp

section \<open>Scan\<close>

text \<open>
  C8 as stated fails for the \<open>nil\<close> source: it is neither a string nor a byte slice,
  yet \<open>Scan\<close> returns no error and leaves the identifier as it was.
\<close>

theorem Scan_nil_counterexample:
  "\<not> is_text SrcNil \<and> \<not> is_bytes SrcNil \<and>
   Scan zero_UULID SrcNil = (None, zero_UULID) \<and>
   fst (Scan zero_UULID SrcNil) \<noteq> Some ErrInvalidType"
  by simp

text \<open>
  C8 (as amended). For every source value other than \<open>nil\<close> that is neither a string
  nor a byte slice, \<open>Scan\<close> fails with \<open>ErrInvalidType\<close> and leaves the identifier
  unchanged; for the \<open>nil\<close> source it returns no error and leaves the identifier
  unchanged.
\<close>

theorem Scan_invalid_type:
  "(\<not> is_text src \<and> \<not> is_bytes src \<and> src \<noteq> SrcNil
      \<longrightarrow> Scan u src = (Some ErrInvalidType, u)) \<and>
   Scan u SrcNil = (None, u)"
  by (cases src) simp_all

theorem Scan_invalid_type_witness:
  "\<not> is_text (SrcInt64 5) \<and> \<not> is_bytes (SrcInt64 5) \<and> SrcInt64 5 \<noteq> SrcNil \<and>
   Scan zero_UULID (SrcInt64 5) = (Some ErrInvalidType, zero_UULID)"
  using Scan_invalid_type [of "SrcInt64 5" zero_UULID] by simp

section \<open>Hex digits\<close>

lemma nibble_table:
  "\<forall>k \<in> set [0..<16]. fromHexChar (hextable ! k) = Some (of_nat k)"
  by code_simp

lemma fromHexChar_hextable:
  assumes "n < 16"
  shows "fromHexChar (hextable ! unat n) = Some n"
proof -
  have "unat n < 16" using assms by (simp add: word_less_nat_alt)
  then have "unat n \<in> set [0..<16]" by simp
  with nibble_table have "fromHexChar (hextable ! unat n) = Some (of_nat (unat n))" by blast
  then show ?thesis by simp
qed

lemma hi_nibble_less: "drop_bit 4 v < 16" for v :: byte
proof -
  have "unat (drop_bit 4 v) = unat v div 16" by (simp add: unat_drop_bit_div)
  moreover have "unat v < 256" using unsigned_less [of v] by simp
  ultimately have "unat (drop_bit 4 v) < 16" by simp
  then show ?thesis by (simp add: word_less_nat_alt)
qed

lemma lo_nibble_less: "v AND 0x0f < 16" for v :: byte
proof -
  have "v AND 0x0f \<le> 0x0f" by (rule word_and_le1)
  moreover have "(0x0f :: byte) < 16" by simp
  ultimately show ?thesis by (rule le_less_trans)
qed

lemma nibbles_join: "push_bit 4 (drop_bit 4 v) OR (v AND 0x0f) = v" for v :: byte
proof -
  have "(0x0f :: byte) = mask 4" by (simp add: mask_eq_exp_minus_1)
  then have "v AND 0x0f = take_bit 4 v" by (simp only: take_bit_eq_mask)
  then show ?thesis
    by (simp only:) (rule bit_word_eqI, auto simp add: bit_simps)
qed

lemma unhex_hexstr [simp]: "unhex (hexstr vs) = vs"
  by (induction vs)
     (simp_all add: hexstr_def fromHexChar_hextable hi_nibble_less lo_nibble_less nibbles_join)

lemma hex_error_hexstr [simp]: "hex_error (hexstr vs) = None"
  by (induction vs)
     (simp_all add: hexstr_def is_hex_def fromHexChar_hextable hi_nibble_less lo_nibble_less)

lemma length_hexstr [simp]: "length (hexstr vs) = 2 * length vs"
  by (induction vs) (simp_all add: hexstr_def)

section \<open>The loops of Encode and Decode\<close>

lemma take_upd_snoc: "i < length xs \<Longrightarrow> take (Suc i) (xs[i := a]) = take i xs @ [a]"
  by (simp add: take_Suc_conv_app_nth)

lemma Encode_loop_eq:
  "j + 2 * length src \<le> length dst \<Longrightarrow>
   Encode_loop dst j src = take j dst @ hexstr src @ drop (j + 2 * length src) dst"
proof (induction src arbitrary: dst j)
  case Nil
  then show ?case by (simp add: hexstr_def)
next
  case (Cons v vs)
  let ?a = "hextable ! unat (drop_bit 4 v)"
  let ?b = "hextable ! unat (v AND 0x0f)"
  let ?d = "dst[j := ?a, j + 1 := ?b]"
  have len: "j + 1 < length dst" using Cons.prems by simp
  have t: "take (j + 2) ?d = take j dst @ [?a, ?b]"
  proof -
    have "take (Suc (Suc j)) ?d = take (Suc j) ?d @ [?b]"
      using len by (simp add: take_Suc_conv_app_nth)
    also have "take (Suc j) ?d = take j dst @ [?a]"
      using len by (simp add: take_Suc_conv_app_nth)
    finally show ?thesis by simp
  qed
  have d: "drop (j + 2 + 2 * length vs) ?d = drop (j + 2 + 2 * length vs) dst"
    by simp
  have "Encode_loop dst j (v # vs) = Encode_loop ?d (j + 2) vs" by simp
  also have "\<dots> = take (j + 2) ?d @ hexstr vs @ drop (j + 2 + 2 * length vs) ?d"
    using Cons.prems by (intro Cons.IH) simp
  finally show ?case
    unfolding t d by (simp add: hexstr_def add.assoc)
qed

lemma Encode_eq:
  "length dst = 2 * length src \<Longrightarrow> Encode dst src = hexstr src"
  by (simp add: Encode_def Encode_loop_eq)

lemma Decode_loop_eq:
  "i + length src div 2 \<le> length dst \<Longrightarrow>
   Decode_loop dst i src
     = (take i dst @ unhex src @ drop (i + length (unhex src)) dst,
        i + length (unhex src), hex_error src)"
proof (induction dst i src rule: Decode_loop.induct)
  case (1 dst i p q rest)
  show ?case
  proof (cases "fromHexChar p")
    case None
    then show ?thesis by (simp add: is_hex_def)
  next
    case pa: (Some a)
    show ?thesis
    proof (cases "fromHexChar q")
      case None
      then show ?thesis using pa by (simp add: is_hex_def)
    next
      case qb: (Some b)
      let ?x = "push_bit 4 a OR b"
      have len: "i < length dst" using "1.prems" by simp
      have "Decode_loop (dst[i := ?x]) (i + 1) rest
          = (take (i + 1) (dst[i := ?x]) @ unhex rest
               @ drop (i + 1 + length (unhex rest)) (dst[i := ?x]),
             i + 1 + length (unhex rest), hex_error rest)"
        using "1.prems" by (intro "1.IH" [OF pa qb]) simp
      then have ih: "Decode_loop (dst[i := ?x]) (Suc i) rest
          = (take (Suc i) (dst[i := ?x]) @ unhex rest
               @ drop (Suc (i + length (unhex rest))) dst,
             Suc (i + length (unhex rest)), hex_error rest)"
        by simp
      have t: "take (Suc i) (dst[i := ?x]) = take i dst @ [?x]"
        using len by (rule take_upd_snoc)
      show ?thesis
        using pa qb by (simp add: ih t is_hex_def)
    qed
  qed
next
  case (2 dst i p)
  then show ?case by (cases "fromHexChar p") (simp_all add: is_hex_def)
next
  case (3 dst i)
  then show ?case by simp
qed

lemma Decode_eq:
  "length src div 2 \<le> length dst \<Longrightarrow>
   Decode dst src = (unhex src @ drop (length (unhex src)) dst, length (unhex src), hex_error src)"
  by (simp add: Decode_def Decode_loop_eq)

section \<open>The embedded timestamp is within range\<close>

lemma bit_byte_shift:
  "bit (push_bit k (ucast b :: uint64)) n \<Longrightarrow> n < k + 8" for b :: byte
  by (auto simp add: bit_simps dest!: bit_imp_le_length)

lemma bit_byte_ucast:
  "bit (ucast b :: uint64) n \<Longrightarrow> n < 8" for b :: byte
  by (auto simp add: bit_simps dest!: bit_imp_le_length)

lemma Timestamp_of_le: "Timestamp_of u \<le> MaxTimestamp"
proof -
  let ?w = "Timestamp_of u"
  have b: "n < 48" if "bit ?w n" for n
    using that bit_byte_ucast [of "u ! 5" n] bit_byte_shift [of 8 "u ! 4" n]
      bit_byte_shift [of 16 "u ! 3" n] bit_byte_shift [of 24 "u ! 2" n]
      bit_byte_shift [of 32 "u ! 1" n] bit_byte_shift [of 40 "u ! 0" n]
    by (auto simp add: Timestamp_of_def bit_or_iff)
  have "take_bit 48 ?w = ?w"
    by (rule bit_word_eqI) (use b in \<open>auto simp add: bit_take_bit_iff\<close>)
  then have "unat ?w = take_bit 48 (unat ?w)"
    by (metis unsigned_take_bit_eq)
  then have "unat ?w < 2 ^ 48"
    by (metis take_bit_nat_less_exp)
  then show ?thesis
    by (simp add: MaxTimestamp_def word_le_nat_alt)
qed

lemma parse_no_big_time: "\<not> MaxTimestamp < Timestamp_of u"
  using Timestamp_of_le [of u] by (simp add: not_less)

section \<open>Encoding\<close>

lemma length16E:
  assumes "length u = 16"
  obtains a0 a1 a2 a3 a4 a5 a6 a7 a8 a9 a10 a11 a12 a13 a14 a15
  where "u = [a0, a1, a2, a3, a4, a5, a6, a7, a8, a9, a10, a11, a12, a13, a14, a15]"
  using assms by (auto simp add: length_Suc_conv numeral_eq_Suc)

lemma replicate36: "replicate HexEncodedSize (0::byte) =
  [0,0,0,0,0,0,0,0,0,0,0,0,0,0,0,0,0,0,0,0,0,0,0,0,0,0,0,0,0,0,0,0,0,0,0,0]"
  by (simp add: HexEncodedSize_def numeral_eq_Suc)

lemma replicate16: "replicate BinarySize (0::byte) = [0,0,0,0,0,0,0,0,0,0,0,0,0,0,0,0]"
  by (simp add: BinarySize_def numeral_eq_Suc)

lemma MarshalText_eq:
  assumes "length u = 16"
  shows "MarshalText u =
    (hexstr (subslice u 0 4) @ [of_char CHR ''-''] @ hexstr (subslice u 4 6) @ [of_char CHR ''-''] @
     hexstr (subslice u 6 8) @ [of_char CHR ''-''] @ hexstr (subslice u 8 10) @ [of_char CHR ''-''] @
     hexstr (subslice u 10 16), None)"
proof -
  from assms obtain a0 a1 a2 a3 a4 a5 a6 a7 a8 a9 a10 a11 a12 a13 a14 a15
    where u: "u = [a0, a1, a2, a3, a4, a5, a6, a7, a8, a9, a10, a11, a12, a13, a14, a15]"
    by (rule length16E)
  define H where "H v = hextable ! unat (drop_bit 4 v)" for v :: byte
  define L where "L v = hextable ! unat (v AND 0x0f)" for v :: byte
  define D where "D = (of_char CHR ''-'' :: byte)"
  have hs: "hexstr (v # vs) = H v # L v # hexstr vs" "hexstr [] = []" for v vs
    by (simp_all add: hexstr_def H_def L_def)
  have s1: "splice [0, 0, 0, 0, 0, 0, 0, 0, 0, 0, 0, 0, 0, 0, 0, 0, 0, 0, 0, 0, 0, 0, 0, 0, 0, 0, 0, 0, 0, 0, 0, 0, 0, 0, 0, 0] 0 (Encode (subslice [0, 0, 0, 0, 0, 0, 0, 0, 0, 0, 0, 0, 0, 0, 0, 0, 0, 0, 0, 0, 0, 0, 0, 0, 0, 0, 0, 0, 0, 0, 0, 0, 0, 0, 0, 0] 0 8) (subslice u 0 4))
      = [H a0, L a0, H a1, L a1, H a2, L a2, H a3, L a3, 0, 0, 0, 0, 0, 0, 0, 0, 0, 0, 0, 0, 0, 0, 0, 0, 0, 0, 0, 0, 0, 0, 0, 0, 0, 0, 0, 0]"
    unfolding u by (simp add: subslice_def splice_def Encode_eq hs)
  have s2: "[H a0, L a0, H a1, L a1, H a2, L a2, H a3, L a3, 0, 0, 0, 0, 0, 0, 0, 0, 0, 0, 0, 0, 0, 0, 0, 0, 0, 0, 0, 0, 0, 0, 0, 0, 0, 0, 0, 0][8 := D]
      = [H a0, L a0, H a1, L a1, H a2, L a2, H a3, L a3, D, 0, 0, 0, 0, 0, 0, 0, 0, 0, 0, 0, 0, 0, 0, 0, 0, 0, 0, 0, 0, 0, 0, 0, 0, 0, 0, 0]"
    by simp
  have s3: "splice [H a0, L a0, H a1, L a1, H a2, L a2, H a3, L a3, D, 0, 0, 0, 0, 0, 0, 0, 0, 0, 0, 0, 0, 0, 0, 0, 0, 0, 0, 0, 0, 0, 0, 0, 0, 0, 0, 0] 9 (Encode (subslice [H a0, L a0, H a1, L a1, H a2, L a2, H a3, L a3, D, 0, 0, 0, 0, 0, 0, 0, 0, 0, 0, 0, 0, 0, 0, 0, 0, 0, 0, 0, 0, 0, 0, 0, 0, 0, 0, 0] 9 13) (subslice u 4 6))
      = [H a0, L a0, H a1, L a1, H a2, L a2, H a3, L a3, D, H a4, L a4, H a5, L a5, 0, 0, 0, 0, 0, 0, 0, 0, 0, 0, 0, 0, 0, 0, 0, 0, 0, 0, 0, 0, 0, 0, 0]"
    unfolding u by (simp add: subslice_def splice_def Encode_eq hs)
  have s4: "[H a0, L a0, H a1, L a1, H a2, L a2, H a3, L a3, D, H a4, L a4, H a5, L a5, 0, 0, 0, 0, 0, 0, 0, 0, 0, 0, 0, 0, 0, 0, 0, 0, 0, 0, 0, 0, 0, 0, 0][13 := D]
      = [H a0, L a0, H a1, L a1, H a2, L a2, H a3, L a3, D, H a4, L a4, H a5, L a5, D, 0, 0, 0, 0, 0, 0, 0, 0, 0, 0, 0, 0, 0, 0, 0, 0, 0, 0, 0, 0, 0, 0]"
    by simp
  have s5: "splice [H a0, L a0, H a1, L a1, H a2, L a2, H a3, L a3, D, H a4, L a4, H a5, L a5, D, 0, 0, 0, 0, 0, 0, 0, 0, 0, 0, 0, 0, 0, 0, 0, 0, 0, 0, 0, 0, 0, 0] 14 (Encode (subslice [H a0, L a0, H a1, L a1, H a2, L a2, H a3, L a3, D, H a4, L a4, H a5, L a5, D, 0, 0, 0, 0, 0, 0, 0, 0, 0, 0, 0, 0, 0, 0, 0, 0, 0, 0, 0, 0, 0, 0] 14 18) (subslice u 6 8))
      = [H a0, L a0, H a1, L a1, H a2, L a2, H a3, L a3, D, H a4, L a4, H a5, L a5, D, H a6, L a6, H a7, L a7, 0, 0, 0, 0, 0, 0, 0, 0, 0, 0, 0, 0, 0, 0, 0, 0, 0, 0]"
    unfolding u by (simp add: subslice_def splice_def Encode_eq hs)
  have s6: "[H a0, L a0, H a1, L a1, H a2, L a2, H a3, L a3, D, H a4, L a4, H a5, L a5, D, H a6, L a6, H a7, L a7, 0, 0, 0, 0, 0, 0, 0, 0, 0, 0, 0, 0, 0, 0, 0, 0, 0, 0][18 := D]
      = [H a0, L a0, H a1, L a1, H a2, L a2, H a3, L a3, D, H a4, L a4, H a5, L a5, D, H a6, L a6, H a7, L a7, D, 0, 0, 0, 0, 0, 0, 0, 0, 0, 0, 0, 0, 0, 0, 0, 0, 0]"
    by simp
  have s7: "splice [H a0, L a0, H a1, L a1, H a2, L a2, H a3, L a3, D, H a4, L a4, H a5, L a5, D, H a6, L a6, H a7, L a7, D, 0, 0, 0, 0, 0, 0, 0, 0, 0, 0, 0, 0, 0, 0, 0, 0, 0] 19 (Encode (subslice [H a0, L a0, H a1, L a1, H a2, L a2, H a3, L a3, D, H a4, L a4, H a5, L a5, D, H a6, L a6, H a7, L a7, D, 0, 0, 0, 0, 0, 0, 0, 0, 0, 0, 0, 0, 0, 0, 0, 0, 0] 19 23) (subslice u 8 10))
      = [H a0, L a0, H a1, L a1, H a2, L a2, H a3, L a3, D, H a4, L a4, H a5, L a5, D, H a6, L a6, H a7, L a7, D, H a8, L a8, H a9, L a9, 0, 0, 0, 0, 0, 0, 0, 0, 0, 0, 0, 0, 0]"
    unfolding u by (simp add: subslice_def splice_def Encode_eq hs)
  have s8: "[H a0, L a0, H a1, L a1, H a2, L a2, H a3, L a3, D, H a4, L a4, H a5, L a5, D, H a6, L a6, H a7, L a7, D, H a8, L a8, H a9, L a9, 0, 0, 0, 0, 0, 0, 0, 0, 0, 0, 0, 0, 0][23 := D]
      = [H a0, L a0, H a1, L a1, H a2, L a2, H a3, L a3, D, H a4, L a4, H a5, L a5, D, H a6, L a6, H a7, L a7, D, H a8, L a8, H a9, L a9, D, 0, 0, 0, 0, 0, 0, 0, 0, 0, 0, 0, 0]"
    by simp
  have s9: "splice [H a0, L a0, H a1, L a1, H a2, L a2, H a3, L a3, D, H a4, L a4, H a5, L a5, D, H a6, L a6, H a7, L a7, D, H a8, L a8, H a9, L a9, D, 0, 0, 0, 0, 0, 0, 0, 0, 0, 0, 0, 0] 24 (Encode (subslice [H a0, L a0, H a1, L a1, H a2, L a2, H a3, L a3, D, H a4, L a4, H a5, L a5, D, H a6, L a6, H a7, L a7, D, H a8, L a8, H a9, L a9, D, 0, 0, 0, 0, 0, 0, 0, 0, 0, 0, 0, 0] 24 36) (subslice u 10 16))
      = [H a0, L a0, H a1, L a1, H a2, L a2, H a3, L a3, D, H a4, L a4, H a5, L a5, D, H a6, L a6, H a7, L a7, D, H a8, L a8, H a9, L a9, D, H a10, L a10, H a11, L a11, H a12, L a12, H a13, L a13, H a14, L a14, H a15, L a15]"
    unfolding u by (simp add: subslice_def splice_def Encode_eq hs)
  have "MarshalTextTo u (replicate HexEncodedSize 0) = (None, [H a0, L a0, H a1, L a1, H a2, L a2, H a3, L a3, D, H a4, L a4, H a5, L a5, D, H a6, L a6, H a7, L a7, D, H a8, L a8, H a9, L a9, D, H a10, L a10, H a11, L a11, H a12, L a12, H a13, L a13, H a14, L a14, H a15, L a15])"
    unfolding MarshalTextTo_def replicate36 Let_def D_def [symmetric]
    by (simp only: s1 s2 s3 s4 s5 s6 s7 s8 s9) (simp add: HexEncodedSize_def)
  then show ?thesis
    unfolding MarshalText_def u by (simp add: subslice_def hs D_def)
qed

section \<open>Decoding\<close>

lemma length_unhex_le: "length (unhex g) \<le> length g div 2"
  by (induction g rule: unhex.induct) (auto split: option.splits)

lemma length_unhex_ok: "hex_error g = None \<Longrightarrow> 2 * length (unhex g) = length g"
  by (induction g rule: hex_error.induct) (auto simp add: is_hex_def split: if_splits)




lemma decode_range_eq:
  assumes "a \<le> b" and "b \<le> length u" and "length (subslice data c d) = 2 * (b - a)"
  shows "decode_range u a b data c d
           = (hex_error (subslice data c d),
              take a u @ unhex (subslice data c d)
                @ drop (a + length (unhex (subslice data c d))) u)"
proof -
  let ?g = "subslice data c d"
  let ?n = "length (unhex ?g)"
  have n: "?n \<le> b - a" using length_unhex_le [of ?g] assms(3) by simp
  have ls: "length (subslice u a b) = b - a" using assms(1,2) by (simp add: subslice_def)
  have D: "Decode (subslice u a b) ?g
             = (unhex ?g @ drop ?n (subslice u a b), ?n, hex_error ?g)"
    using assms(3) ls by (intro Decode_eq) simp
  have len: "length (unhex ?g @ drop ?n (subslice u a b)) = b - a"
    using n ls by simp
  have "drop ?n (subslice u a b) @ drop b u = drop (a + ?n) u"
  proof -
    have "drop ?n (subslice u a b) = take (b - a - ?n) (drop (a + ?n) u)"
      by (simp add: subslice_def drop_take add.commute)
    moreover have "drop b u = drop (b - a - ?n) (drop (a + ?n) u)"
      using n assms(1) by simp
    ultimately show ?thesis by (simp only: append_take_drop_id)
  qed
  then show ?thesis
    unfolding decode_range_def D using len assms(1) by (simp add: splice_def)
qed

lemma parse_16:
  assumes "length u = 16" and "length data = 16"
  shows "parse data u = (None, data)"
  using assms by (simp add: parse_def copy_go_def parse_no_big_time)


lemma parse_36:
  assumes u: "length u = 16" and d: "length data = 36"
  defines "g1 \<equiv> subslice data 0 8" and "g2 \<equiv> subslice data 9 13"
    and "g3 \<equiv> subslice data 14 18" and "g4 \<equiv> subslice data 19 23"
    and "g5 \<equiv> subslice data 24 36"
  shows "parse data u =
     (if hex_error g1 \<noteq> None then
        (hex_error g1, unhex g1 @ drop (length (unhex g1)) u)
      else if hex_error g2 \<noteq> None then
        (hex_error g2, unhex g1 @ unhex g2 @ drop (4 + length (unhex g2)) u)
      else if hex_error g3 \<noteq> None then
        (hex_error g3, unhex g1 @ unhex g2 @ unhex g3 @ drop (6 + length (unhex g3)) u)
      else if hex_error g4 \<noteq> None then
        (hex_error g4,
         unhex g1 @ unhex g2 @ unhex g3 @ unhex g4 @ drop (8 + length (unhex g4)) u)
      else if hex_error g5 \<noteq> None then
        (hex_error g5,
         unhex g1 @ unhex g2 @ unhex g3 @ unhex g4 @ unhex g5
           @ drop (10 + length (unhex g5)) u)
      else (None, unhex g1 @ unhex g2 @ unhex g3 @ unhex g4 @ unhex g5))"
proof -
  have l: "length g1 = 8" "length g2 = 4" "length g3 = 4" "length g4 = 4" "length g5 = 12"
    using d by (simp_all add: g1_def g2_def g3_def g4_def g5_def subslice_def)
  have n: "length (unhex g1) = 4" if "hex_error g1 = None"
    using length_unhex_ok [OF that] l by simp
  have n2: "length (unhex g2) = 2" if "hex_error g2 = None"
    using length_unhex_ok [OF that] l by simp
  have n3: "length (unhex g3) = 2" if "hex_error g3 = None"
    using length_unhex_ok [OF that] l by simp
  have n4: "length (unhex g4) = 2" if "hex_error g4 = None"
    using length_unhex_ok [OF that] l by simp
  have n5: "length (unhex g5) = 6" if "hex_error g5 = None"
    using length_unhex_ok [OF that] l by simp
  have r1: "decode_range u 0 4 data 0 8 = (hex_error g1, unhex g1 @ drop (length (unhex g1)) u)"
    using decode_range_eq [of 0 4 u data 0 8] u l by (simp add: g1_def)
  define u1 where "u1 = unhex g1 @ drop 4 u"
  have r2: "decode_range u1 4 6 data 9 13
              = (hex_error g2, unhex g1 @ unhex g2 @ drop (4 + length (unhex g2)) u)"
    if "hex_error g1 = None"
    using decode_range_eq [of 4 6 u1 data 9 13] u l n [OF that]
    by (simp add: g2_def u1_def add.commute)
  define u2 where "u2 = unhex g1 @ unhex g2 @ drop 6 u"
  have r3: "decode_range u2 6 8 data 14 18
              = (hex_error g3, unhex g1 @ unhex g2 @ unhex g3 @ drop (6 + length (unhex g3)) u)"
    if "hex_error g1 = None" "hex_error g2 = None"
    using decode_range_eq [of 6 8 u2 data 14 18] u l n [OF that(1)] n2 [OF that(2)]
    by (simp add: g3_def u2_def add.commute)
  define u3 where "u3 = unhex g1 @ unhex g2 @ unhex g3 @ drop 8 u"
  have r4: "decode_range u3 8 10 data 19 23
              = (hex_error g4,
                 unhex g1 @ unhex g2 @ unhex g3 @ unhex g4 @ drop (8 + length (unhex g4)) u)"
    if "hex_error g1 = None" "hex_error g2 = None" "hex_error g3 = None"
    using decode_range_eq [of 8 10 u3 data 19 23] u l n [OF that(1)] n2 [OF that(2)]
      n3 [OF that(3)]
    by (simp add: g4_def u3_def add.commute)
  define u4 where "u4 = unhex g1 @ unhex g2 @ unhex g3 @ unhex g4 @ drop 10 u"
  have r5: "decode_range u4 10 16 data 24 36
              = (hex_error g5,
                 unhex g1 @ unhex g2 @ unhex g3 @ unhex g4 @ unhex g5
                   @ drop (10 + length (unhex g5)) u)"
    if "hex_error g1 = None" "hex_error g2 = None" "hex_error g3 = None" "hex_error g4 = None"
    using decode_range_eq [of 10 16 u4 data 24 36] u l n [OF that(1)] n2 [OF that(2)]
      n3 [OF that(3)] n4 [OF that(4)]
    by (simp add: g5_def u4_def add.commute)
  show ?thesis
  proof (cases "hex_error g1")
    case (Some e)
    then show ?thesis using d by (simp add: parse_def r1)
  next
    case e1: None
    show ?thesis
    proof (cases "hex_error g2")
      case (Some e)
      then show ?thesis using d e1 r2 [OF e1] n [OF e1]
        by (simp add: parse_def r1 u1_def)
    next
      case e2: None
      show ?thesis
      proof (cases "hex_error g3")
        case (Some e)
        then show ?thesis using d e1 e2 r2 [OF e1] r3 [OF e1 e2] n [OF e1] n2 [OF e2]
          by (simp add: parse_def r1 u1_def u2_def)
      next
        case e3: None
        show ?thesis
        proof (cases "hex_error g4")
          case (Some e)
          then show ?thesis
            using d e1 e2 e3 r2 [OF e1] r3 [OF e1 e2] r4 [OF e1 e2 e3]
              n [OF e1] n2 [OF e2] n3 [OF e3]
            by (simp add: parse_def r1 u1_def u2_def u3_def)
        next
          case e4: None
          show ?thesis
          proof (cases "hex_error g5")
            case (Some e)
            then show ?thesis
              using d e1 e2 e3 e4 r2 [OF e1] r3 [OF e1 e2] r4 [OF e1 e2 e3]
                r5 [OF e1 e2 e3 e4] n [OF e1] n2 [OF e2] n3 [OF e3] n4 [OF e4]
              by (simp add: parse_def r1 u1_def u2_def u3_def u4_def)
          next
            case e5: None
            then show ?thesis
              using d u e1 e2 e3 e4 r2 [OF e1] r3 [OF e1 e2] r4 [OF e1 e2 e3]
                r5 [OF e1 e2 e3 e4] n [OF e1] n2 [OF e2] n3 [OF e3] n4 [OF e4] n5 [OF e5]
              by (simp add: parse_def r1 u1_def u2_def u3_def u4_def parse_no_big_time)
          qed
        qed
      qed
    qed
  qed
qed

lemma parse_MarshalText:
  assumes "length u = 16" and "length dst = 16"
  shows "parse (fst (MarshalText u)) dst = (None, u)"
proof -
  from assms(1) obtain a0 a1 a2 a3 a4 a5 a6 a7 a8 a9 a10 a11 a12 a13 a14 a15
    where u: "u = [a0, a1, a2, a3, a4, a5, a6, a7, a8, a9, a10, a11, a12, a13, a14, a15]"
    by (rule length16E)
  define D where "D = (of_char CHR ''-'' :: byte)"
  define hx where "hx = hexstr [a0, a1, a2, a3] @ [D] @ hexstr [a4, a5] @ [D] @
     hexstr [a6, a7] @ [D] @ hexstr [a8, a9] @ [D] @ hexstr [a10, a11, a12, a13, a14, a15]"
  have m: "fst (MarshalText u) = hx"
    using MarshalText_eq [OF assms(1)] unfolding u hx_def D_def
    by (simp add: subslice_def)
  have len: "length hx = 36" by (simp add: hx_def)
  have g: "subslice hx 0 8 = hexstr [a0, a1, a2, a3]"
    "subslice hx 9 13 = hexstr [a4, a5]"
    "subslice hx 14 18 = hexstr [a6, a7]"
    "subslice hx 19 23 = hexstr [a8, a9]"
    "subslice hx 24 36 = hexstr [a10, a11, a12, a13, a14, a15]"
    by (simp_all add: hx_def subslice_def)
  show ?thesis
    unfolding m using parse_36 [OF assms(2) len]
    by (simp add: g u)
qed

lemma MarshalBinary_eq:
  "length u = 16 \<Longrightarrow> MarshalBinary u = (u, None)"
  by (simp add: MarshalBinary_def MarshalBinaryTo_def BinarySize_def copy_go_def)

text \<open>
  C4. For every identifier (16 bytes), \<open>MarshalText\<close> yields its 36-character text
  without error and \<open>MarshalBinary\<close> its 16 bytes without error, and parsing either
  encoding, into any destination identifier and in particular through \<open>Parse\<close>, yields
  the identifier again without error.
\<close>

theorem parse_encode_roundtrip:
  assumes "wf_UULID u" and "wf_UULID dst"
  shows "snd (MarshalText u) = None \<and> length (fst (MarshalText u)) = HexEncodedSize \<and>
         parse (fst (MarshalText u)) dst = (None, u) \<and>
         Parse (fst (MarshalText u)) = (u, None) \<and>
         snd (MarshalBinary u) = None \<and> length (fst (MarshalBinary u)) = BinarySize \<and>
         parse (fst (MarshalBinary u)) dst = (None, u) \<and>
         Parse (fst (MarshalBinary u)) = (u, None)"
proof -
  have lu: "length u = 16" and ld: "length dst = 16"
    using assms by (simp_all add: wf_UULID_def BinarySize_def)
  have lz: "length zero_UULID = 16" by (simp add: zero_UULID_def BinarySize_def)
  have t: "snd (MarshalText u) = None" "length (fst (MarshalText u)) = HexEncodedSize"
    using lu by (simp_all add: MarshalText_eq HexEncodedSize_def subslice_def)
  have b: "MarshalBinary u = (u, None)" using lu by (rule MarshalBinary_eq)
  show ?thesis
    using t b lu parse_MarshalText [OF lu ld] parse_MarshalText [OF lu lz]
      parse_16 [OF ld lu] parse_16 [OF lz lu]
    by (simp add: Parse_def BinarySize_def)
qed

theorem parse_encode_roundtrip_witness:
  "wf_UULID [0x01, 0x78, 0xa2, 0x84, 0x9e, 0xaf, 0xb3, 0xe7, 0x03, 0x6d, 0x5b, 0x1b, 0x9f, 0x3c,
             0xd7, 0x53] \<and>
   wf_UULID zero_UULID \<and>
   fst (MarshalText [0x01, 0x78, 0xa2, 0x84, 0x9e, 0xaf, 0xb3, 0xe7, 0x03, 0x6d, 0x5b, 0x1b, 0x9f,
                     0x3c, 0xd7, 0x53]) = encoded \<and>
   Parse encoded = ([0x01, 0x78, 0xa2, 0x84, 0x9e, 0xaf, 0xb3, 0xe7, 0x03, 0x6d, 0x5b, 0x1b, 0x9f,
                     0x3c, 0xd7, 0x53], None) \<and>
   Parse (fst (MarshalBinary [0x01, 0x78, 0xa2, 0x84, 0x9e, 0xaf, 0xb3, 0xe7, 0x03, 0x6d, 0x5b,
                              0x1b, 0x9f, 0x3c, 0xd7, 0x53]))
     = ([0x01, 0x78, 0xa2, 0x84, 0x9e, 0xaf, 0xb3, 0xe7, 0x03, 0x6d, 0x5b, 0x1b, 0x9f, 0x3c,
         0xd7, 0x53], None)"
proof -
  let ?u = "[0x01, 0x78, 0xa2, 0x84, 0x9e, 0xaf, 0xb3, 0xe7, 0x03, 0x6d, 0x5b, 0x1b, 0x9f, 0x3c,
             0xd7, 0x53] :: byte list"
  have w: "wf_UULID ?u" by (simp add: wf_UULID_def BinarySize_def)
  have z: "wf_UULID zero_UULID" by (simp add: wf_UULID_def zero_UULID_def)
  have e: "fst (MarshalText ?u) = encoded" by code_simp
  note th = parse_encode_roundtrip [OF w z]
  from th have "Parse (fst (MarshalText ?u)) = (?u, None)" by (elim conjE)
  then have p: "Parse encoded = (?u, None)" unfolding e .
  from th have q: "Parse (fst (MarshalBinary ?u)) = (?u, None)" by (elim conjE)
  from w z e p q show ?thesis by blast
qed




















end
